theory Spec2Isabelle
  imports Main "HOL-Library.Word"
begin

unbundle bit_operations_syntax

section \<open>Machine-level vocabulary\<close>

text \<open>
  The library is C++ for a POSIX host.  A \<open>char\<close> of a buffer is an 8-bit word, the
  \<open>uint16_t\<close> fields of a packet are 16-bit words (their arithmetic wraps), and
  \<open>size_t\<close> quantities are natural numbers, reduced modulo \<open>2 ^ 64\<close> at the places
  where the source can wrap them.
\<close>

type_synonym byte = "8 word"
type_synonym uint16 = "16 word"

text \<open>
  Both error callbacks (\<open>gCommonErrorFunction\<close>, \<open>gSocketErrorFunction\<close>) are
  replaceable function pointers.  A call of either is recorded as one entry of a report
  list that the operations return; the \<open>errno\<close> argument of the socket callback is left
  out, it is whatever the operating system stored last.
\<close>

datatype report =
    CommonError nat string
  | SocketError int nat

definition ERROR_SELECTOR_FAIL :: nat where "ERROR_SELECTOR_FAIL = 300"
definition ERROR_SELECTOR_TIMEOUT :: nat where "ERROR_SELECTOR_TIMEOUT = 301"
definition ERROR_SELECTOR_NO_TARGET :: nat where "ERROR_SELECTOR_NO_TARGET = 302"
definition ERROR_PACKET_TOO_BIG :: nat where "ERROR_PACKET_TOO_BIG = 200"
definition ERROR_PACKETBUFFER_TOO_SMALL :: nat where "ERROR_PACKETBUFFER_TOO_SMALL = 250"
definition ERROR_SOCKET_SEND :: nat where "ERROR_SOCKET_SEND = 116"
definition ERROR_SOCKET_RECEIVE :: nat where "ERROR_SOCKET_RECEIVE = 117"
definition ERROR_SOCKET_HANGUP :: nat where "ERROR_SOCKET_HANGUP = 118"

section \<open>Packet (Packet.hpp)\<close>

text \<open>
  \<open>Packet::maxSize\<close> and \<open>Packet::EMPTY_PACKET_TYPE\<close> are mutable static members, both
  initialised to 65535.  They are passed around as a record so that the theorems hold
  for every setting a program may choose, not only the default one.
\<close>

record statics =
  maxSize :: uint16
  EMPTY_PACKET_TYPE :: uint16

definition default_statics :: statics where
  "default_statics = \<lparr>maxSize = 65535, EMPTY_PACKET_TYPE = 65535\<rparr>"

record Packet =
  mType :: uint16
  mSize :: uint16
  mData :: "byte list"

text \<open>The default constructor \<open>Packet()\<close>: the canonical empty packet.\<close>

definition empty_Packet :: "statics \<Rightarrow> Packet" where
  "empty_Packet st = \<lparr>mType = EMPTY_PACKET_TYPE st, mSize = 4, mData = []\<rparr>"

text \<open>
  \<open>maxSize - 2 * sizeof(uint16_t)\<close> is computed in \<open>size_t\<close>: the 16-bit \<open>maxSize\<close> is
  converted to an unsigned 64-bit value and 4 is subtracted modulo \<open>2 ^ 64\<close>.
\<close>

definition payload_limit :: "statics \<Rightarrow> nat" where
  "payload_limit st = (unat (maxSize st) + 2 ^ 64 - 4) mod 2 ^ 64"

text \<open>
  \<open>Packet(type, data)\<close>, with the reports it sends to \<open>gCommonErrorFunction\<close>.  The
  assignment to the 16-bit \<open>mSize\<close> truncates \<open>data.size() + 4\<close>.
\<close>

definition Packet_ctor :: "statics \<Rightarrow> uint16 \<Rightarrow> byte list \<Rightarrow> Packet \<times> report list" where
  "Packet_ctor st type data =
     (if type = EMPTY_PACKET_TYPE st then
        (\<lparr>mType = EMPTY_PACKET_TYPE st, mSize = 4, mData = []\<rparr>, [])
      else if length data > payload_limit st then
        (\<lparr>mType = EMPTY_PACKET_TYPE st, mSize = 4, mData = []\<rparr>,
         [CommonError ERROR_PACKET_TOO_BIG ''Packet size too big.''])
      else
        (\<lparr>mType = type, mSize = of_nat (length data + 4), mData = data\<rparr>, []))"

section \<open>Byte order (arpa/inet.h) and raw memory\<close>

text \<open>
  The host is little-endian (x86): \<open>htons\<close> and \<open>ntohs\<close> swap the two bytes of a
  16-bit value, and an integer lies in memory with its least significant byte first.
\<close>

definition htons :: "uint16 \<Rightarrow> uint16" where
  "htons x = word_cat (ucast x :: byte) (ucast (drop_bit 8 x) :: byte)"

definition ntohs :: "uint16 \<Rightarrow> uint16" where
  "ntohs x = word_cat (ucast x :: byte) (ucast (drop_bit 8 x) :: byte)"

text \<open>\<open>*((uint16_t*) &buf[off])\<close>: the 16-bit value stored at two consecutive bytes.\<close>

definition read_uint16 :: "byte list \<Rightarrow> nat \<Rightarrow> uint16" where
  "read_uint16 buf off = word_cat (buf ! (off + 1)) (buf ! off)"

text \<open>The eight bytes of a \<open>size_t\<close> object, in address order.\<close>

definition size_t_bytes :: "64 word \<Rightarrow> byte list" where
  "size_t_bytes w = map (\<lambda>k. ucast (drop_bit (8 * k) w)) [0..<8]"

text \<open>\<open>memset(&buf[off], 0, n)\<close>, inside the array.\<close>

definition memset_zero :: "byte list \<Rightarrow> nat \<Rightarrow> nat \<Rightarrow> byte list" where
  "memset_zero buf off n = take off buf @ replicate n 0 @ drop (off + n) buf"

text \<open>
  What C++ leaves undefined is a value of the model: dereferencing the null buffer, an
  access outside the allocated array, \<open>front()\<close> on an empty queue.  A call that never
  returns is \<open>None\<close>.
\<close>

datatype fault = NullPointer | OutOfBounds | EmptyQueue

section \<open>PacketBuffer (PacketBuffer.hpp)\<close>

text \<open>
  \<open>mBuffer\<close> is \<open>None\<close> for \<open>nullptr\<close> and otherwise the allocated array, whose length
  is the allocation size.  The source's \<open>mSize\<close> is called \<open>mBufSize\<close> here, since the
  packet has a field \<open>mSize\<close> of its own.  \<open>mStoredPackets\<close> is the queue, front first.
\<close>

record PacketBuffer =
  mBuffer :: "byte list option"
  mBufSize :: nat
  mCurrentlyStoredBytes :: nat
  mStoredPackets :: "Packet list"

text \<open>
  The constructor.  \<open>new char[mSize]\<close> does not initialise the array: its contents are
  whatever \<open>fresh\<close> says.  The constructor calls no error callback, so its report list
  is empty on both branches.
\<close>

definition PacketBuffer_ctor :: "statics \<Rightarrow> (nat \<Rightarrow> byte) \<Rightarrow> nat \<Rightarrow> PacketBuffer \<times> report list" where
  "PacketBuffer_ctor st fresh sz =
     (if sz \<ge> unat (maxSize st) then
        (\<lparr>mBuffer = Some (map fresh [0..<sz]), mBufSize = sz,
          mCurrentlyStoredBytes = 0, mStoredPackets = []\<rparr>, [])
      else
        (\<lparr>mBuffer = None, mBufSize = 0,
          mCurrentlyStoredBytes = 0, mStoredPackets = []\<rparr>, []))"

definition getBuffer :: "PacketBuffer \<Rightarrow> byte list option" where
  "getBuffer b = mBuffer b"

definition getSize :: "PacketBuffer \<Rightarrow> nat" where
  "getSize b = mBufSize b"

definition getCurrentSize :: "PacketBuffer \<Rightarrow> nat" where
  "getCurrentSize b = mCurrentlyStoredBytes b"

definition isPacketsStored :: "PacketBuffer \<Rightarrow> bool" where
  "isPacketsStored b = (mStoredPackets b \<noteq> [])"

definition getPacket :: "PacketBuffer \<Rightarrow> fault + Packet \<times> PacketBuffer" where
  "getPacket b =
     (case mStoredPackets b of
        [] \<Rightarrow> Inl EmptyQueue
      | packet # rest \<Rightarrow> Inr (packet, b\<lparr>mStoredPackets := rest\<rparr>))"

text \<open>
  The loop that copies the payload into the string stream,
  \<open>for(uint16_t i = 4; i < packetSize; i++) ss << mBuffer[i]\<close>.
\<close>

function collectData :: "byte list \<Rightarrow> uint16 \<Rightarrow> uint16 \<Rightarrow> byte list \<Rightarrow> fault + byte list" where
  "collectData buf packetSize i ss =
     (if i < packetSize then
        (if unat i < length buf then collectData buf packetSize (i + 1) (ss @ [buf ! unat i])
         else Inl OutOfBounds)
      else Inr ss)"
  by pat_completeness auto
termination
proof (relation "measure (\<lambda>(buf, packetSize, i, ss). unat packetSize - unat i)")
  show "wf (measure (\<lambda>(buf, packetSize, i, ss). unat packetSize - unat i))"
    by simp
next
  fix buf :: "byte list" and packetSize i :: uint16 and ss :: "byte list"
  assume "i < packetSize"
  then have "unat (i + 1) = Suc (unat i)" and "unat i < unat packetSize"
    by unat_arith+
  then show "((buf, packetSize, i + 1, ss @ [buf ! unat i]), (buf, packetSize, i, ss))
      \<in> measure (\<lambda>(buf, packetSize, i, ss). unat packetSize - unat i)"
    by simp
qed

declare collectData.simps [simp del]

text \<open>
  The loop that moves the rest of the buffer to the front,
  \<open>for(uint16_t i = packetSize; i < mCurrentlyStoredBytes; i++)
     mBuffer[i - packetSize] = mBuffer[i]\<close>.
  The counter is 16 bits wide and wraps at 65536, the bound is a \<open>size_t\<close>; the index
  \<open>i - packetSize\<close> is computed in \<open>int\<close> and is negative when \<open>i < packetSize\<close>.
\<close>

partial_function (option) shiftDown ::
  "uint16 \<Rightarrow> nat \<Rightarrow> uint16 \<Rightarrow> byte list \<Rightarrow> (fault + byte list) option" where
  "shiftDown packetSize stored i buf =
     (if unat i < stored then
        (if packetSize \<le> i \<and> unat i < length buf then
           shiftDown packetSize stored (i + 1) (buf[unat i - unat packetSize := buf ! unat i])
         else Some (Inl OutOfBounds))
      else Some (Inr buf))"

text \<open>The \<open>while\<close> loop of \<open>buildPackets\<close>; \<open>log\<close> collects the reports of the packet
  constructor.\<close>

partial_function (option) buildPackets_loop ::
  "statics \<Rightarrow> PacketBuffer \<Rightarrow> report list \<Rightarrow> (fault + PacketBuffer \<times> report list) option" where
  "buildPackets_loop st b log =
     (if mCurrentlyStoredBytes b \<ge> 2 then
        (case mBuffer b of
           None \<Rightarrow> Some (Inl NullPointer)
         | Some buf \<Rightarrow>
             if length buf < 2 then Some (Inl OutOfBounds)
             else
               let packetSize = ntohs (read_uint16 buf 0) in
               if mCurrentlyStoredBytes b \<ge> unat packetSize then
                 (case collectData buf packetSize 4 [] of
                    Inl f \<Rightarrow> Some (Inl f)
                  | Inr ss \<Rightarrow>
                      if length buf < 4 then Some (Inl OutOfBounds)
                      else
                        let (packet, reports) = Packet_ctor st (ntohs (read_uint16 buf 2)) ss in
                        (case shiftDown packetSize (mCurrentlyStoredBytes b) packetSize buf of
                           None \<Rightarrow> None
                         | Some (Inl f) \<Rightarrow> Some (Inl f)
                         | Some (Inr buf') \<Rightarrow>
                             let stored' = mCurrentlyStoredBytes b - unat packetSize in
                             if stored' + unat packetSize > length buf' then Some (Inl OutOfBounds)
                             else
                               buildPackets_loop st
                                 (b\<lparr>mBuffer := Some (memset_zero buf' stored' (unat packetSize)),
                                    mCurrentlyStoredBytes := stored',
                                    mStoredPackets := mStoredPackets b @ [packet]\<rparr>)
                                 (log @ reports)))
               else Some (Inr (b, log)))
      else Some (Inr (b, log)))"

text \<open>
  \<open>buildPackets(receivedBytes)\<close>: the \<open>int\<close> argument is converted to \<open>size_t\<close> and
  added modulo \<open>2 ^ 64\<close>.
\<close>

definition buildPackets ::
  "statics \<Rightarrow> int \<Rightarrow> PacketBuffer \<Rightarrow> report list \<Rightarrow> (fault + PacketBuffer \<times> report list) option" where
  "buildPackets st receivedBytes b log =
     buildPackets_loop st
       (b\<lparr>mCurrentlyStoredBytes :=
            nat ((int (mCurrentlyStoredBytes b) + receivedBytes) mod 2 ^ 64)\<rparr>) log"

section \<open>Sending and receiving (TcpSocket.hpp, UdpSocket.hpp)\<close>

text \<open>
  \<open>TcpSocket::send\<close> has the same loop three times, each handing a region of memory to \<open>::send\<close>
  piece by piece until all of it is taken: the first two bytes of the \<open>size_t\<close> object
  holding \<open>htons(packet.getSize())\<close>, the first two bytes of the one holding
  \<open>htons(packet.getType())\<close>, and the payload.  When no call fails, the stream carries
  these bytes in this order, whatever the sizes of the pieces.
\<close>

definition TcpSocket_send :: "Packet \<Rightarrow> byte list" where
  "TcpSocket_send packet =
     take 2 (size_t_bytes (ucast (htons (mSize packet))))
     @ take 2 (size_t_bytes (ucast (htons (mType packet))))
     @ mData packet"

text \<open>
  The operating system is a script of what the successive read calls find: a failure
  (return value -1), or the bytes that are ready; no bytes ready means the call returns 0.
  A read returns at most the requested length.  On a stream the bytes it leaves behind
  stay for the next read, on a datagram socket the rest of the datagram is discarded.
  Receive flags are not modelled.
\<close>

datatype os_read = ReadFails | ReadData "byte list"

text \<open>A read request: the offset into the buffer it writes at, and the requested length.\<close>

type_synonym read_request = "nat \<times> nat"

text \<open>
  How a receive call ends: it returns; it runs into undefined behaviour; it never
  leaves \<open>buildPackets\<close>; or the script is used up and the call stays blocked
  in its last read.
\<close>

datatype 'a outcome = Returns 'a | Undefined fault | NeverReturns | Blocked

text \<open>The read call writes the bytes it got at \<open>getBuffer() + getCurrentSize()\<close>.\<close>

definition store_bytes :: "PacketBuffer \<Rightarrow> byte list \<Rightarrow> fault + PacketBuffer" where
  "store_bytes b got =
     (case mBuffer b of
        None \<Rightarrow> Inl NullPointer
      | Some buf \<Rightarrow>
          if mCurrentlyStoredBytes b + length got > length buf then Inl OutOfBounds
          else Inr (b\<lparr>mBuffer := Some (take (mCurrentlyStoredBytes b) buf @ got
                                      @ drop (mCurrentlyStoredBytes b + length got) buf)\<rparr>))"

text \<open>
  The \<open>ssize_t\<close> result of the read is bound to the \<open>const int&\<close> parameter of
  \<open>buildPackets\<close>: a conversion to 32 bits.
\<close>

definition ssize_to_int :: "int \<Rightarrow> int" where
  "ssize_to_int n = (n + 2 ^ 31) mod 2 ^ 32 - 2 ^ 31"

fun os_size :: "os_read \<Rightarrow> nat" where
  "os_size ReadFails = 1"
| "os_size (ReadData bytes) = Suc (length bytes)"

text \<open>
  \<open>TcpSocket::receive(buffer, flags)\<close>.  (The source spells the loop condition
  \<open>isPacketStored\<close>; the buffer's member is \<open>isPacketsStored\<close>.)  The result is the list
  of read requests the call issued, in order, and how the call ended.
\<close>

function TcpSocket_receive ::
  "statics \<Rightarrow> int \<Rightarrow> os_read list \<Rightarrow> PacketBuffer \<Rightarrow> report list
     \<Rightarrow> read_request list \<times> (PacketBuffer \<times> report list) outcome" where
  "TcpSocket_receive st sock [] b log =
     ([(getCurrentSize b, getSize b div 2)], Blocked)"
| "TcpSocket_receive st sock (ReadFails # os) b log =
     ([(getCurrentSize b, getSize b div 2)],
      Returns (b, log @ [SocketError sock ERROR_SOCKET_RECEIVE]))"
| "TcpSocket_receive st sock (ReadData bytes # os) b log =
     (let request = (getCurrentSize b, getSize b div 2);
          got = take (getSize b div 2) bytes;
          os' = (if length bytes \<le> getSize b div 2 then os
                 else ReadData (drop (getSize b div 2) bytes) # os)
      in if got = [] then
           ([request], Returns (b, log @ [SocketError sock ERROR_SOCKET_HANGUP]))
         else
           (case store_bytes b got of
              Inl f \<Rightarrow> ([request], Undefined f)
            | Inr b1 \<Rightarrow>
                (case buildPackets st (ssize_to_int (int (length got))) b1 log of
                   None \<Rightarrow> ([request], NeverReturns)
                 | Some (Inl f) \<Rightarrow> ([request], Undefined f)
                 | Some (Inr (b2, log2)) \<Rightarrow>
                     if isPacketsStored b2 then ([request], Returns (b2, log2))
                     else
                       (case TcpSocket_receive st sock os' b2 log2 of
                          (requests, out) \<Rightarrow> (request # requests, out)))))"
  by pat_completeness auto
termination
proof (relation "measure (\<lambda>(st, sock, os, b, log). sum_list (map os_size os))")
  show "wf (measure (\<lambda>(st, sock, os, b, log). sum_list (map os_size os)))"
    by simp
next
  fix st :: statics and sock :: int and bytes :: "byte list" and os :: "os_read list"
    and b :: PacketBuffer and log :: "report list" and x xa xb
  assume "x = (getCurrentSize b, getSize b div 2)"
    and "xa = take (getSize b div 2) bytes"
    and "xb = (if length bytes \<le> getSize b div 2 then os
               else ReadData (drop (getSize b div 2) bytes) # os)"
    and "xa \<noteq> []"
  then have "sum_list (map os_size xb) < sum_list (map os_size (ReadData bytes # os))"
    by (cases "getSize b div 2") auto
  then show "\<And>b2 log2. ((st, sock, xb, b2, log2), (st, sock, ReadData bytes # os, b, log))
      \<in> measure (\<lambda>(st, sock, os, b, log). sum_list (map os_size os))"
    by simp
qed

declare TcpSocket_receive.simps [simp del]

text \<open>
  \<open>TcpSocket::receive(buffer, address, flags)\<close> ignores the address and calls the
  function above.
\<close>

definition TcpSocket_receive_address ::
  "statics \<Rightarrow> int \<Rightarrow> os_read list \<Rightarrow> PacketBuffer \<Rightarrow> report list
     \<Rightarrow> read_request list \<times> (PacketBuffer \<times> report list) outcome" where
  "TcpSocket_receive_address st sock os b log = TcpSocket_receive st sock os b log"

text \<open>
  \<open>UdpSocket::receive(buffer, address, flags)\<close>: \<open>recvfrom\<close> with the whole
  \<open>getSize()\<close> as requested length; both error branches return.  The source address
  that \<open>recvfrom\<close> stores in \<open>address\<close> is not modelled.
\<close>

fun UdpSocket_receive_address ::
  "statics \<Rightarrow> int \<Rightarrow> os_read list \<Rightarrow> PacketBuffer \<Rightarrow> report list
     \<Rightarrow> read_request list \<times> (PacketBuffer \<times> report list) outcome" where
  "UdpSocket_receive_address st sock [] b log =
     ([(getCurrentSize b, getSize b)], Blocked)"
| "UdpSocket_receive_address st sock (ReadFails # os) b log =
     ([(getCurrentSize b, getSize b)],
      Returns (b, log @ [SocketError sock ERROR_SOCKET_RECEIVE]))"
| "UdpSocket_receive_address st sock (ReadData bytes # os) b log =
     (let request = (getCurrentSize b, getSize b);
          got = take (getSize b) bytes
      in if got = [] then
           ([request], Returns (b, log @ [SocketError sock ERROR_SOCKET_HANGUP]))
         else
           (case store_bytes b got of
              Inl f \<Rightarrow> ([request], Undefined f)
            | Inr b1 \<Rightarrow>
                (case buildPackets st (ssize_to_int (int (length got))) b1 log of
                   None \<Rightarrow> ([request], NeverReturns)
                 | Some (Inl f) \<Rightarrow> ([request], Undefined f)
                 | Some (Inr (b2, log2)) \<Rightarrow>
                     if isPacketsStored b2 then ([request], Returns (b2, log2))
                     else
                       (case UdpSocket_receive_address st sock os b2 log2 of
                          (requests, out) \<Rightarrow> (request # requests, out)))))"

text \<open>
  \<open>UdpSocket::receive(buffer, flags)\<close>: the same loop, but its two error branches have
  no \<open>return\<close>; after the report the loop body goes on to
  \<open>buffer.buildPackets(currentlyReceived)\<close> with the count 0 or -1.
\<close>

fun UdpSocket_receive ::
  "statics \<Rightarrow> int \<Rightarrow> os_read list \<Rightarrow> PacketBuffer \<Rightarrow> report list
     \<Rightarrow> read_request list \<times> (PacketBuffer \<times> report list) outcome" where
  "UdpSocket_receive st sock [] b log =
     ([(getCurrentSize b, getSize b)], Blocked)"
| "UdpSocket_receive st sock (ev # os) b log =
     (let request = (getCurrentSize b, getSize b);
          got = (case ev of ReadFails \<Rightarrow> [] | ReadData bytes \<Rightarrow> take (getSize b) bytes);
          currentlyReceived = (case ev of ReadFails \<Rightarrow> - 1 | ReadData bytes \<Rightarrow> int (length got));
          log1 = (if currentlyReceived \<le> 0 then
                    (if currentlyReceived = 0 then log @ [SocketError sock ERROR_SOCKET_HANGUP]
                     else log @ [SocketError sock ERROR_SOCKET_RECEIVE])
                  else log)
      in (case (if got = [] then Inr b else store_bytes b got) of
            Inl f \<Rightarrow> ([request], Undefined f)
          | Inr b1 \<Rightarrow>
              (case buildPackets st (ssize_to_int currentlyReceived) b1 log1 of
                 None \<Rightarrow> ([request], NeverReturns)
               | Some (Inl f) \<Rightarrow> ([request], Undefined f)
               | Some (Inr (b2, log2)) \<Rightarrow>
                   if isPacketsStored b2 then ([request], Returns (b2, log2))
                   else
                     (case UdpSocket_receive st sock os b2 log2 of
                        (requests, out) \<Rightarrow> (request # requests, out)))))"

text \<open>
  Bytes reaching a buffer in pieces: each piece is one successful read, written behind
  the stored bytes and then handed to \<open>buildPackets\<close> with its length, as one round of
  a receive call does.
\<close>

definition ingest ::
  "statics \<Rightarrow> byte list \<Rightarrow> PacketBuffer \<times> report list \<Rightarrow> (fault + PacketBuffer \<times> report list) option" where
  "ingest st chunk s =
     (case store_bytes (fst s) chunk of
        Inl f \<Rightarrow> Some (Inl f)
      | Inr b1 \<Rightarrow> buildPackets st (ssize_to_int (int (length chunk))) b1 (snd s))"

fun ingest_all ::
  "statics \<Rightarrow> byte list list \<Rightarrow> PacketBuffer \<times> report list \<Rightarrow> (fault + PacketBuffer \<times> report list) option" where
  "ingest_all st [] s = Some (Inr s)"
| "ingest_all st (chunk # chunks) s =
     (case ingest st chunk s of
        None \<Rightarrow> None
      | Some (Inl f) \<Rightarrow> Some (Inl f)
      | Some (Inr s') \<Rightarrow> ingest_all st chunks s')"

section \<open>Selector (Selector.hpp)\<close>

text \<open>
  A socket is identified by its descriptor: \<open>Socket::operator==\<close> compares descriptors
  and nothing else, so the selector's private copies are modelled by their descriptors,
  in the order of \<open>mSockets\<close>.  The three result vectors belong to the caller and are
  reached through pointers; \<open>None\<close> is \<open>nullptr\<close>, \<open>Some v\<close> the current contents of the
  vector (three distinct vectors).  Each \<open>fd_set\<close> is the set of descriptors in it, and each
  \<open>mFd...Pointer\<close> is \<open>True\<close> when it points to its \<open>fd_set\<close> and \<open>False\<close> when it is null.
  \<open>FD_SET\<close> and \<open>FD_CLR\<close> are defined for valid descriptors only; the model does not
  restrict them.
\<close>

record Selector =
  mSockets :: "int list"
  mWritable :: "int list option"
  mReadable :: "int list option"
  mFaulty :: "int list option"
  mFdSockets :: "int set"
  mFdWritable :: "int set"
  mFdReadable :: "int set"
  mFdFaulty :: "int set"
  mFdWritablePointer :: bool
  mFdReadablePointer :: bool
  mFdFaultyPointer :: bool
  mTimeout :: "int \<times> int"
  mSocketsMax :: int

definition setWritable :: "int list option \<Rightarrow> Selector \<Rightarrow> Selector" where
  "setWritable array s =
     (case array of
        None \<Rightarrow> s\<lparr>mWritable := None, mFdWritablePointer := False\<rparr>
      | Some v \<Rightarrow> s\<lparr>mWritable := Some v, mFdWritablePointer := True\<rparr>)"

definition setReadable :: "int list option \<Rightarrow> Selector \<Rightarrow> Selector" where
  "setReadable array s =
     (case array of
        None \<Rightarrow> s\<lparr>mReadable := None, mFdReadablePointer := False\<rparr>
      | Some v \<Rightarrow> s\<lparr>mReadable := Some v, mFdReadablePointer := True\<rparr>)"

definition setFaulty :: "int list option \<Rightarrow> Selector \<Rightarrow> Selector" where
  "setFaulty array s =
     (case array of
        None \<Rightarrow> s\<lparr>mFaulty := None, mFdFaultyPointer := False\<rparr>
      | Some v \<Rightarrow> s\<lparr>mFaulty := Some v, mFdFaultyPointer := True\<rparr>)"

definition setTimeout :: "int \<Rightarrow> int \<Rightarrow> Selector \<Rightarrow> Selector" where
  "setTimeout sec usec s = s\<lparr>mTimeout := (sec, usec)\<rparr>"

text \<open>The constructor \<open>Selector(readable, writable, faulty)\<close>.\<close>

definition Selector_ctor :: "int list option \<Rightarrow> int list option \<Rightarrow> int list option \<Rightarrow> Selector" where
  "Selector_ctor readable writable faulty =
     setFaulty faulty (setReadable readable (setWritable writable
       \<lparr>mSockets = [], mWritable = None, mReadable = None, mFaulty = None,
        mFdSockets = {}, mFdWritable = {}, mFdReadable = {}, mFdFaulty = {},
        mFdWritablePointer = False, mFdReadablePointer = False, mFdFaultyPointer = False,
        mTimeout = (0, 0), mSocketsMax = 0\<rparr>))"

definition clearTemp :: "Selector \<Rightarrow> Selector" where
  "clearTemp s =
     s\<lparr>mWritable := (case mWritable s of None \<Rightarrow> None | Some v \<Rightarrow> Some []),
       mReadable := (case mReadable s of None \<Rightarrow> None | Some v \<Rightarrow> Some []),
       mFaulty := (case mFaulty s of None \<Rightarrow> None | Some v \<Rightarrow> Some [])\<rparr>"

text \<open>
  One call of \<open>select\<close> as \<open>update\<close> makes it: the first argument and which of the three
  set pointers are not null, with the timeout.  What the operating system answers is a
  parameter of \<open>update\<close>: the return value, the descriptors it leaves in the read,
  write and exception sets, and what it leaves in the \<open>timeval\<close> it was given (\<open>update\<close>
  passes its own \<open>mTimeout\<close>, which \<open>select\<close> may overwrite with the time not slept).
\<close>

record select_call =
  nfds :: int
  readfds :: bool
  writefds :: bool
  exceptfds :: bool
  timeout :: "int \<times> int"

record select_answer =
  returned :: int
  readable_fds :: "int set"
  writable_fds :: "int set"
  faulty_fds :: "int set"
  timeout_left :: "int \<times> int"

text \<open>\<open>vec->clear()\<close> followed by the loop that pushes every tracked socket whose
  descriptor is in the set; through a null vector pointer it is undefined.\<close>

definition refill :: "int list option \<Rightarrow> int list \<Rightarrow> int set \<Rightarrow> fault + int list option" where
  "refill vec socks fds =
     (case vec of
        None \<Rightarrow> Inl NullPointer
      | Some v \<Rightarrow> Inr (Some (filter (\<lambda>i. i \<in> fds) socks)))"

text \<open>
  \<open>Selector::update\<close>.  The result is the returned status, the selector afterwards, the
  \<open>select\<close> calls made and the reports sent to the error callbacks (the function calls
  neither callback).
\<close>

definition update ::
  "select_answer \<Rightarrow> Selector \<Rightarrow> fault + int \<times> Selector \<times> select_call list \<times> report list" where
  "update os s =
     (if mFdReadablePointer s \<or> mFdWritablePointer s \<or> mFdFaultyPointer s then
        let call = \<lparr>nfds = mSocketsMax s + 1, readfds = mFdReadablePointer s,
                     writefds = mFdWritablePointer s, exceptfds = mFdFaultyPointer s,
                     timeout = mTimeout s\<rparr>;
            s1 = s\<lparr>mFdWritable := (if mFdWritablePointer s then writable_fds os else mFdSockets s),
                    mFdReadable := (if mFdReadablePointer s then readable_fds os else mFdSockets s),
                    mFdFaulty := (if mFdFaultyPointer s then faulty_fds os else mFdSockets s),
                    mTimeout := timeout_left os\<rparr>;
            selectError = returned os
        in if selectError \<le> 0 then Inr (selectError, clearTemp s1, [call], [])
           else
             (case (if mFdWritablePointer s1
                    then refill (mWritable s1) (mSockets s1) (mFdWritable s1)
                    else Inr (mWritable s1)) of
                Inl f \<Rightarrow> Inl f
              | Inr w \<Rightarrow>
                  (case (if mFdReadablePointer s1
                         then refill (mReadable s1) (mSockets s1) (mFdReadable s1)
                         else Inr (mReadable s1)) of
                     Inl f \<Rightarrow> Inl f
                   | Inr r \<Rightarrow>
                       (case (if mFdFaultyPointer s1
                              then refill (mFaulty s1) (mSockets s1) (mFdFaulty s1)
                              else Inr (mFaulty s1)) of
                          Inl f \<Rightarrow> Inl f
                        | Inr f \<Rightarrow>
                            Inr (selectError,
                                 s1\<lparr>mWritable := w, mReadable := r, mFaulty := f\<rparr>,
                                 [call], []))))
      else Inr (- 2, s, [], []))"

text \<open>\<open>Selector::add\<close>.\<close>

definition add :: "int \<Rightarrow> Selector \<Rightarrow> Selector" where
  "add sock s =
     s\<lparr>mFdSockets := insert sock (mFdSockets s),
       mSockets := mSockets s @ [sock],
       mSocketsMax := (if sock > mSocketsMax s then sock else mSocketsMax s)\<rparr>"

text \<open>
  The first loop of \<open>Selector::remove\<close>: erase the first tracked socket equal to
  \<open>sock\<close>, resetting the cached maximum to 0 if that socket held it, and stop.
\<close>

fun erase_first :: "int \<Rightarrow> int list \<Rightarrow> int \<Rightarrow> int list \<times> int" where
  "erase_first sock [] mx = ([], mx)"
| "erase_first sock (i # rest) mx =
     (if i = sock then (rest, if i = mx then 0 else mx)
      else (case erase_first sock rest mx of (rest', mx') \<Rightarrow> (i # rest', mx')))"

text \<open>The second loop: the largest descriptor, starting from the cached value.\<close>

fun rescan :: "int list \<Rightarrow> int \<Rightarrow> int" where
  "rescan [] mx = mx"
| "rescan (i # rest) mx = rescan rest (if i > mx then i else mx)"

definition remove :: "int \<Rightarrow> Selector \<Rightarrow> Selector" where
  "remove sock s =
     (case erase_first sock (mSockets s) (mSocketsMax s) of
        (socks, mx) \<Rightarrow>
          s\<lparr>mFdSockets := mFdSockets s - {sock},
            mSockets := socks,
            mSocketsMax := (if mx = 0 then rescan socks mx else mx)\<rparr>)"

definition removeAll :: "Selector \<Rightarrow> Selector" where
  "removeAll s =
     (clearTemp (s\<lparr>mFdSockets := {}, mFdWritable := {}, mFdReadable := {}, mFdFaulty := {}\<rparr>))
       \<lparr>mSockets := []\<rparr>"

definition getAll :: "Selector \<Rightarrow> int list" where
  "getAll s = mSockets s"

text \<open>A program's sequence of \<open>add\<close> and \<open>remove\<close> calls on one selector.\<close>

datatype selector_call = Add int | Remove int

fun descriptor :: "selector_call \<Rightarrow> int" where
  "descriptor (Add sock) = sock"
| "descriptor (Remove sock) = sock"

fun run_calls :: "selector_call list \<Rightarrow> Selector \<Rightarrow> Selector" where
  "run_calls [] s = s"
| "run_calls (Add sock # calls) s = run_calls calls (add sock s)"
| "run_calls (Remove sock # calls) s = run_calls calls (remove sock s)"

text \<open>
  The invariant of the cached maximum: it is the largest tracked descriptor, or 0 when
  that is larger (in particular when nothing is tracked).
\<close>

definition cached_max_ok :: "Selector \<Rightarrow> bool" where
  "cached_max_ok s \<longleftrightarrow> mSocketsMax s = Max (insert 0 (set (mSockets s)))"

section \<open>Packet construction\<close>

lemma payload_limit_eq:
  assumes "4 \<le> unat (maxSize st)"
  shows "payload_limit st = unat (maxSize st) - 4"
proof -
  obtain k where k: "unat (maxSize st) = k + 4"
    using assms by (metis le_add_diff_inverse2)
  have "unat (maxSize st) < 2 ^ LENGTH(16)"
    by (rule unsigned_less)
  then have "k < 2 ^ 16"
    using k by simp
  then have "k < (2::nat) ^ 64"
    by simp
  then have "(k + 2 ^ 64) mod 2 ^ 64 = k"
    by simp
  then show ?thesis
    by (simp add: payload_limit_def k)
qed

text \<open>
  C5.  With \<open>maxSize\<close> at least 4 (so that \<open>maxSize - 4\<close> is a length), a packet whose
  kind is not the empty-packet kind and whose payload is longer than \<open>maxSize - 4\<close>
  (in particular of length \<open>maxSize - 4 + 1\<close>) is constructed as the canonical empty
  packet, kind \<open>EMPTY_PACKET_TYPE\<close>, size 4, no payload, and exactly one report, the
  oversize error, goes to the error callback; a payload of length exactly
  \<open>maxSize - 4\<close> is accepted as it is, with size \<open>maxSize\<close>, and nothing is reported.
\<close>

theorem Packet_ctor_oversize:
  assumes "4 \<le> unat (maxSize st)" and "type \<noteq> EMPTY_PACKET_TYPE st"
  shows "(length data > unat (maxSize st) - 4 \<longrightarrow>
            Packet_ctor st type data =
              (\<lparr>mType = EMPTY_PACKET_TYPE st, mSize = 4, mData = []\<rparr>,
               [CommonError ERROR_PACKET_TOO_BIG ''Packet size too big.'']))
       \<and> (length data = unat (maxSize st) - 4 \<longrightarrow>
            Packet_ctor st type data =
              (\<lparr>mType = type, mSize = maxSize st, mData = data\<rparr>, []))"
proof -
  have lim: "payload_limit st = unat (maxSize st) - 4"
    using assms(1) by (rule payload_limit_eq)
  have "of_nat (unat (maxSize st) - 4 + 4) = maxSize st"
    using assms(1) by simp
  then show ?thesis
    using assms(2) by (simp add: Packet_ctor_def lim)
qed

theorem Packet_ctor_oversize_witness:
  "Packet_ctor default_statics 7 (replicate 65532 0) =
     (\<lparr>mType = 65535, mSize = 4, mData = []\<rparr>,
      [CommonError ERROR_PACKET_TOO_BIG ''Packet size too big.''])
   \<and> Packet_ctor default_statics 7 (replicate 65531 0) =
     (\<lparr>mType = 7, mSize = 65535, mData = replicate 65531 0\<rparr>, [])"
proof -
  have a: "4 \<le> unat (maxSize default_statics)"
    by (simp add: default_statics_def)
  have b: "(7::uint16) \<noteq> EMPTY_PACKET_TYPE default_statics"
    by (simp add: default_statics_def)
  show ?thesis
    using Packet_ctor_oversize [OF a b, of "replicate 65532 0"]
          Packet_ctor_oversize [OF a b, of "replicate 65531 0"]
    by (simp add: default_statics_def)
qed

section \<open>Facts about words, the payload loop and the shift loop\<close>

lemma unat_succ_lt: "i < (ps::uint16) \<Longrightarrow> unat (i + 1) = Suc (unat i)"
  by unat_arith

lemma unat_succ_bound:
  assumes "unat (i::uint16) < n" and "n \<le> 65535"
  shows "unat (i + 1) = Suc (unat i)"
proof -
  have "i < 65535"
    using assms by (simp add: word_less_nat_alt)
  then show ?thesis
    by (rule unat_succ_lt)
qed

lemma ntohs_read_uint16: "ntohs (read_uint16 buf off) = word_cat (buf ! off) (buf ! (off + 1))"
  unfolding ntohs_def read_uint16_def
  by (rule bit_word_eqI) (auto simp add: bit_simps)

lemma collectData_eq:
  "unat packetSize \<le> length buf \<Longrightarrow>
   collectData buf packetSize i ss =
     Inr (ss @ take (unat packetSize - unat i) (drop (unat i) buf))"
proof (induction buf packetSize i ss rule: collectData.induct)
  case (1 buf packetSize i ss)
  show ?case
  proof (cases "i < packetSize")
    case True
    then have u: "unat (i + 1) = Suc (unat i)" and lt: "unat i < unat packetSize"
      by unat_arith+
    have inb: "unat i < length buf"
      using lt "1.prems" by simp
    have "take (unat packetSize - unat i) (drop (unat i) buf) =
          buf ! unat i # take (unat packetSize - Suc (unat i)) (drop (Suc (unat i)) buf)"
      using lt inb
      by (metis Cons_nth_drop_Suc Suc_diff_Suc take_Suc_Cons)
    then show ?thesis
      using True inb "1.IH" [OF True inb "1.prems"] u
      by (subst collectData.simps) simp
  next
    case False
    then have "unat packetSize - unat i = 0"
      by (simp add: word_less_nat_alt)
    then show ?thesis
      using False by (subst collectData.simps) simp
  qed
qed

lemma shiftDown_eq:
  assumes "stored \<le> length buf" and "stored \<le> 65535"
      and "packetSize \<le> i" and "unat i \<le> stored"
  shows "shiftDown packetSize stored i buf =
     Some (Inr (take (unat i - unat packetSize) buf
                @ take (stored - unat i) (drop (unat i) buf)
                @ drop (stored - unat packetSize) buf))"
  using assms
proof (induction "stored - unat i" arbitrary: i buf)
  case 0
  then have "unat i = stored" by simp
  then show ?case
    by (subst shiftDown.simps) simp
next
  case (Suc n)
  let ?p = "unat packetSize" and ?i = "unat i"
  let ?buf' = "buf[?i - ?p := buf ! ?i]"
  have lt: "?i < stored" using Suc.hyps(2) by simp
  have u: "unat (i + 1) = Suc ?i"
    using lt Suc.prems(2) by (rule unat_succ_bound)
  have pi: "?p \<le> ?i"
    using Suc.prems(3) by (simp add: word_le_nat_alt)
  have le': "packetSize \<le> i + 1"
    using pi u by (simp add: word_le_nat_alt)
  have inb: "?i < length buf"
    using lt Suc.prems(1) by simp
  have IH: "shiftDown packetSize stored (i + 1) ?buf' =
     Some (Inr (take (Suc ?i - ?p) ?buf'
                @ take (stored - Suc ?i) (drop (Suc ?i) ?buf')
                @ drop (stored - ?p) ?buf'))"
    using Suc.hyps(1) [of "i + 1" ?buf'] Suc.hyps(2) Suc.prems(1,2) le' lt u
    by simp
  have a: "take (Suc ?i - ?p) ?buf' = take (?i - ?p) buf @ [buf ! ?i]"
    using pi inb by (simp add: Suc_diff_le take_Suc_conv_app_nth)
  have b: "drop (Suc ?i) ?buf' = drop (Suc ?i) buf"
    by simp
  have c: "drop (stored - ?p) ?buf' = drop (stored - ?p) buf"
  proof (cases "?p = 0")
    case True
    then show ?thesis by simp
  next
    case False
    then show ?thesis using lt pi by simp
  qed
  have d: "take (stored - ?i) (drop ?i buf) = buf ! ?i # take (stored - Suc ?i) (drop (Suc ?i) buf)"
    using lt inb by (metis Cons_nth_drop_Suc Suc_diff_Suc take_Suc_Cons)
  show ?case
    using lt inb Suc.prems(3) IH
    by (subst shiftDown.simps) (simp add: a b c d)
qed

section \<open>One round of the extraction loop\<close>

lemma buildPackets_loop_few:
  "mCurrentlyStoredBytes b < 2 \<Longrightarrow> buildPackets_loop st b log = Some (Inr (b, log))"
  by (subst buildPackets_loop.simps) simp

lemma buildPackets_loop_incomplete:
  assumes "mBuffer b = Some buf" and "2 \<le> length buf"
      and "mCurrentlyStoredBytes b < unat (ntohs (read_uint16 buf 0))"
  shows "buildPackets_loop st b log = Some (Inr (b, log))"
  using assms by (subst buildPackets_loop.simps) simp



lemma buildPackets_loop_step:
  assumes buf: "mBuffer b = Some buf" and len: "4 \<le> length buf"
      and two: "2 \<le> mCurrentlyStoredBytes b"
      and fits: "mCurrentlyStoredBytes b \<le> length buf"
      and small: "mCurrentlyStoredBytes b \<le> 65535"
      and ps: "packetSize = ntohs (read_uint16 buf 0)"
      and whole: "unat packetSize \<le> mCurrentlyStoredBytes b"
      and pkt: "Packet_ctor st (ntohs (read_uint16 buf 2)) (take (unat packetSize - 4) (drop 4 buf))
                 = (packet, reports)"
  shows "buildPackets_loop st b log =
     buildPackets_loop st
       (b\<lparr>mBuffer := Some (take (mCurrentlyStoredBytes b - unat packetSize) (drop (unat packetSize) buf)
                           @ replicate (unat packetSize) 0
                           @ drop (mCurrentlyStoredBytes b) buf),
          mCurrentlyStoredBytes := mCurrentlyStoredBytes b - unat packetSize,
          mStoredPackets := mStoredPackets b @ [packet]\<rparr>)
       (log @ reports)"
proof -
  let ?s = "mCurrentlyStoredBytes b" and ?p = "unat packetSize"
  have cd: "collectData buf packetSize 4 [] = Inr (take (?p - 4) (drop 4 buf))"
    using collectData_eq [of packetSize buf 4 "[]"] whole fits by simp
  have sd: "shiftDown packetSize ?s packetSize buf =
      Some (Inr (take (?s - ?p) (drop ?p buf) @ drop (?s - ?p) buf))"
    using shiftDown_eq [OF fits small order_refl whole] by simp
  have ms: "memset_zero (take (?s - ?p) (drop ?p buf) @ drop (?s - ?p) buf) (?s - ?p) ?p =
      take (?s - ?p) (drop ?p buf) @ replicate ?p 0 @ drop ?s buf"
    using whole fits by (simp add: memset_zero_def)
  have inb: "\<not> length buf < ?s - ?p + ?p" "\<not> length buf < 2" "\<not> length buf < 4"
    using whole fits len by simp_all
  show ?thesis
    apply (subst buildPackets_loop.simps)
    using two whole inb
    apply (simp add: buf ps [symmetric] cd pkt sd ms Let_def)
    done
qed


lemma ssize_to_int_id: "0 \<le> n \<Longrightarrow> n < 2 ^ 31 \<Longrightarrow> ssize_to_int n = n"
  by (simp add: ssize_to_int_def)

lemma TcpSocket_send_eq:
  "TcpSocket_send p =
     [ucast (drop_bit 8 (mSize p)), ucast (mSize p),
      ucast (drop_bit 8 (mType p)), ucast (mType p)] @ mData p"
proof -
  have "take 2 (size_t_bytes (ucast (htons x))) = [ucast (drop_bit 8 x), ucast x]" for x :: uint16
    unfolding htons_def size_t_bytes_def
    apply (simp add: upt_rec)
    apply (rule conjI)
     apply (rule bit_word_eqI)
     apply (auto simp add: bit_simps)[1]
    apply (rule bit_word_eqI)
    apply (auto simp add: bit_simps)[1]
    done
  then show ?thesis
    by (simp add: TcpSocket_send_def)
qed

lemma word_cat_bytes: "word_cat (ucast (drop_bit 8 x) :: byte) (ucast x :: byte) = (x::uint16)"
  by (rule bit_word_eqI) (auto simp add: bit_simps)

lemma store_bytes_ok:
  assumes "mBuffer b = Some buf" and "mCurrentlyStoredBytes b + length got \<le> length buf"
  shows "store_bytes b got =
     Inr (b\<lparr>mBuffer := Some (take (mCurrentlyStoredBytes b) buf @ got
                              @ drop (mCurrentlyStoredBytes b + length got) buf)\<rparr>)"
  using assms by (simp add: store_bytes_def)

lemma ingest_all_idle:
  assumes "mBuffer b = Some buf" and "mCurrentlyStoredBytes b = 0" and "concat chunks = []"
  shows "ingest_all st chunks (b, log) = Some (Inr (b, log))"
  using assms
proof (induction chunks)
  case Nil
  then show ?case by simp
next
  case (Cons c cs)
  then have c: "c = []" and cs: "concat cs = []"
    by simp_all
  have "store_bytes b [] = Inr b"
    using Cons.prems(1,2) by (simp add: store_bytes_def)
  moreover have "buildPackets st (ssize_to_int 0) b log = Some (Inr (b, log))"
    using Cons.prems(2) by (simp add: buildPackets_def ssize_to_int_def buildPackets_loop_few)
  ultimately have "ingest st c (b, log) = Some (Inr (b, log))"
    by (simp add: ingest_def c)
  then show ?case
    using Cons.IH [OF Cons.prems(1,2) cs] by simp
qed

lemma ingest_all_fill:
  assumes wire: "wire = [h0, h1, h2, h3] @ data"
      and L: "unat (word_cat h0 h1 :: uint16) = length wire"
      and pkt: "Packet_ctor st (word_cat h2 h3) data = (m, [])"
      and fits: "length wire \<le> length buf"
      and buf: "mBuffer b = Some buf"
      and t: "mCurrentlyStoredBytes b = t"
      and pre: "take t buf = take t wire"
      and rest: "drop t wire = concat chunks"
      and lt: "t < length wire"
      and q: "mStoredPackets b = []"
  shows "\<exists>b'. ingest_all st chunks (b, log) = Some (Inr (b', log))
            \<and> mStoredPackets b' = [m] \<and> mCurrentlyStoredBytes b' = 0"
  using fits buf t pre rest lt q
proof (induction chunks arbitrary: b buf t)
  case Nil
  then show ?case by simp
next
  case (Cons c cs)
  let ?t' = "t + length c"
  let ?buf1 = "take t buf @ c @ drop ?t' buf"
  let ?b1 = "b\<lparr>mBuffer := Some ?buf1\<rparr>"
  let ?b2 = "?b1\<lparr>mCurrentlyStoredBytes := ?t'\<rparr>"
  have small: "length wire \<le> 65535"
  proof -
    have "unat (word_cat h0 h1 :: uint16) < 2 ^ LENGTH(16)"
      by (rule unsigned_less)
    then show ?thesis
      using L by simp
  qed
  have c: "c = take (length c) (drop t wire)"
    using Cons.prems(5) by simp
  have t'le: "?t' \<le> length wire"
  proof -
    have "length (drop t wire) = length c + length (concat cs)"
      using Cons.prems(5) by simp
    then show ?thesis
      using Cons.prems(6) by simp
  qed
  have rest': "drop ?t' wire = concat cs"
  proof -
    have "drop (length c) (drop t wire) = concat cs"
      using Cons.prems(5) by simp
    then show ?thesis
      by (simp add: add.commute)
  qed
  have sb: "store_bytes b c = Inr ?b1"
    using store_bytes_ok [of b buf c] Cons.prems(1,2,3) t'le by simp
  have conv: "ssize_to_int (int (length c)) = int (length c)"
    using t'le small by (intro ssize_to_int_id) simp_all
  have eq: "nat ((int (mCurrentlyStoredBytes ?b1) + int (length c)) mod 2 ^ 64) = ?t'"
  proof -
    have "int t + int (length c) < 2 ^ 64"
      using t'le small by simp
    then have "(int t + int (length c)) mod 2 ^ 64 = int t + int (length c)"
      by simp
    then show ?thesis
      using Cons.prems(3) by (simp add: nat_add_distrib)
  qed
  have bp: "buildPackets st (ssize_to_int (int (length c))) ?b1 log = buildPackets_loop st ?b2 log"
    by (simp only: buildPackets_def conv eq)
  have len1: "length ?buf1 = length buf"
    using t'le Cons.prems(1) by simp
  have pre1: "take ?t' ?buf1 = take ?t' wire"
  proof -
    have "take ?t' ?buf1 = take t buf @ c"
      using t'le Cons.prems(1) by simp
    also have "\<dots> = take t wire @ take (length c) (drop t wire)"
      using Cons.prems(4) c by simp
    also have "\<dots> = take ?t' wire"
      by (simp add: take_add)
    finally show ?thesis .
  qed
  have ing: "ingest st c (b, log) = buildPackets_loop st ?b2 log"
    by (simp add: ingest_def sb bp)
  have hdr: "ntohs (read_uint16 ?buf1 0) = word_cat h0 h1" if "2 \<le> ?t'"
  proof -
    have "take ?t' ?buf1 ! 0 = ?buf1 ! 0" "take ?t' ?buf1 ! 1 = ?buf1 ! 1"
      using that by (simp_all only: nth_take)
    moreover have "take ?t' wire ! 0 = wire ! 0" "take ?t' wire ! 1 = wire ! 1"
      using that by (simp_all only: nth_take)
    ultimately have "?buf1 ! 0 = wire ! 0" "?buf1 ! 1 = wire ! 1"
      by (simp_all only: pre1)
    then have "?buf1 ! 0 = h0" "?buf1 ! 1 = h1"
      by (simp_all add: wire)
    then show ?thesis
      by (simp add: ntohs_read_uint16)
  qed
  show ?case
  proof (cases "?t' < length wire")
    case True
    have "buildPackets_loop st ?b2 log = Some (Inr (?b2, log))"
    proof (cases "?t' < 2")
      case True
      then show ?thesis by (simp add: buildPackets_loop_few)
    next
      case False
      then have "mCurrentlyStoredBytes ?b2 < unat (ntohs (read_uint16 ?buf1 0))"
        using hdr L True by simp
      moreover have "2 \<le> length ?buf1"
        using len1 Cons.prems(1) False True by simp
      ultimately show ?thesis
        by (intro buildPackets_loop_incomplete [where buf = ?buf1]) simp_all
    qed
    then have "ingest_all st (c # cs) (b, log) = ingest_all st cs (?b2, log)"
      by (simp add: ing)
    moreover have "\<exists>b'. ingest_all st cs (?b2, log) = Some (Inr (b', log))
            \<and> mStoredPackets b' = [m] \<and> mCurrentlyStoredBytes b' = 0"
    proof (rule Cons.IH [where buf = ?buf1 and t = ?t'])
      show "length wire \<le> length ?buf1" using len1 Cons.prems(1) by simp
      show "mBuffer ?b2 = Some ?buf1" by simp
      show "mCurrentlyStoredBytes ?b2 = ?t'" by simp
      show "take ?t' ?buf1 = take ?t' wire" by (rule pre1)
      show "drop ?t' wire = concat cs"
        by (rule rest')
      show "?t' < length wire" by (rule True)
      show "mStoredPackets ?b2 = []" using Cons.prems(7) by simp
    qed
    ultimately show ?thesis by simp
  next
    case False
    then have full: "?t' = length wire"
      using t'le by simp
    have w1: "take (length wire) ?buf1 = wire"
      using pre1 full by simp
    have four: "4 \<le> length wire"
      by (simp add: wire)
    have nths: "?buf1 ! 2 = h2" "?buf1 ! 3 = h3"
    proof -
      have "take (length wire) ?buf1 ! 2 = ?buf1 ! 2" "take (length wire) ?buf1 ! 3 = ?buf1 ! 3"
        using four by (simp_all only: nth_take)
      then have "?buf1 ! 2 = wire ! 2" "?buf1 ! 3 = wire ! 3"
        by (simp_all only: w1)
      then show "?buf1 ! 2 = h2" "?buf1 ! 3 = h3"
        by (simp_all add: wire)
    qed
    have ps: "ntohs (read_uint16 ?buf1 0) = word_cat h0 h1"
      using hdr full four by simp
    have kind: "ntohs (read_uint16 ?buf1 2) = word_cat h2 h3"
      using nths by (simp add: ntohs_read_uint16)
    have payload: "take (length wire - 4) (drop 4 ?buf1) = data"
    proof -
      have "take (length wire - 4) (drop 4 ?buf1) = drop 4 (take (length wire) ?buf1)"
        by (simp only: drop_take)
      also have "\<dots> = drop 4 wire"
        by (simp only: w1)
      finally show ?thesis
        by (simp add: wire)
    qed
    let ?b3 = "?b2\<lparr>mBuffer := Some (take (mCurrentlyStoredBytes ?b2 - length wire) (drop (length wire) ?buf1)
                           @ replicate (length wire) 0
                           @ drop (mCurrentlyStoredBytes ?b2) ?buf1),
          mCurrentlyStoredBytes := mCurrentlyStoredBytes ?b2 - length wire,
          mStoredPackets := mStoredPackets ?b2 @ [m]\<rparr>"
    have step: "buildPackets_loop st ?b2 log = buildPackets_loop st ?b3 (log @ [])"
      using buildPackets_loop_step [where b = ?b2 and buf = ?buf1 and packetSize = "word_cat h0 h1"
          and packet = m and reports = "[]" and st = st and log = log]
        four len1 Cons.prems(1) full small ps kind payload pkt L
      by simp
    have "buildPackets_loop st ?b3 log = Some (Inr (?b3, log))"
      using full by (simp add: buildPackets_loop_few)
    then have "ingest st c (b, log) = Some (Inr (?b3, log))"
      using ing step by simp
    moreover have "ingest_all st cs (?b3, log) = Some (Inr (?b3, log))"
    proof (rule ingest_all_idle)
      show "mBuffer ?b3 = Some (take (mCurrentlyStoredBytes ?b2 - length wire) (drop (length wire) ?buf1)
                           @ replicate (length wire) 0
                           @ drop (mCurrentlyStoredBytes ?b2) ?buf1)"
        by simp
      show "mCurrentlyStoredBytes ?b3 = 0" using full by simp
      show "concat cs = []"
        using rest' full by simp
    qed
    ultimately have "ingest_all st (c # cs) (b, log) = Some (Inr (?b3, log))"
      by simp
    moreover have "mStoredPackets ?b3 = [m]" "mCurrentlyStoredBytes ?b3 = 0"
      using Cons.prems(7) full by simp_all
    ultimately show ?thesis by blast
  qed
qed

section \<open>Framing round trip\<close>

lemma Packet_ctor_accepts:
  assumes "type \<noteq> EMPTY_PACKET_TYPE st" and "length data + 4 \<le> unat (maxSize st)"
  shows "Packet_ctor st type data =
     (\<lparr>mType = type, mSize = of_nat (length data + 4), mData = data\<rparr>, [])"
proof -
  have "payload_limit st = unat (maxSize st) - 4"
    using assms(2) by (intro payload_limit_eq) simp
  then show ?thesis
    using assms by (simp add: Packet_ctor_def)
qed

lemma unat_wire_length:
  assumes "length data + 4 \<le> unat (maxSize st)"
  shows "unat (of_nat (length data + 4) :: uint16) = length data + 4"
proof -
  have "unat (maxSize st) < 2 ^ LENGTH(16)"
    by (rule unsigned_less)
  then have "length data + 4 < 2 ^ LENGTH(16)"
    using assms by simp
  then show ?thesis
    by (intro of_nat_inverse [OF refl])
qed

text \<open>
  C1.  Take a packet \<open>m\<close> built from a kind other than \<open>EMPTY_PACKET_TYPE\<close> and a
  payload of at most \<open>maxSize - 4\<close> bytes, and a usable buffer (at least \<open>maxSize\<close>
  bytes) that holds nothing.  Cut the bytes that \<open>TcpSocket::send\<close> puts on the stream
  for \<open>m\<close> into pieces in any way (one byte each, one piece, anything between, empty
  pieces included) and let each piece arrive and go through \<open>buildPackets\<close>.  Every
  call returns, at the end exactly one packet is pending, it is \<open>m\<close>, and \<open>getPacket\<close>
  hands out \<open>m\<close>: kind, size and payload are those given to the constructor.
\<close>

theorem framing_round_trip:
  assumes kind: "type \<noteq> EMPTY_PACKET_TYPE st"
      and size: "length data + 4 \<le> unat (maxSize st)"
      and m: "m = fst (Packet_ctor st type data)"
      and buf: "mBuffer b = Some buf"
      and cap: "unat (maxSize st) \<le> length buf"
      and empty: "mCurrentlyStoredBytes b = 0" "mStoredPackets b = []"
      and chunks: "concat chunks = TcpSocket_send m"
  shows "\<exists>b'. ingest_all st chunks (b, log) = Some (Inr (b', log))
            \<and> mStoredPackets b' = [m]
            \<and> getPacket b' = Inr (m, b'\<lparr>mStoredPackets := []\<rparr>)
            \<and> mType m = type \<and> unat (mSize m) = length data + 4 \<and> mData m = data"
proof -
  let ?S = "of_nat (length data + 4) :: uint16"
  let ?wire = "[ucast (drop_bit 8 ?S), ucast ?S, ucast (drop_bit 8 type), ucast type] @ data"
  have ctor: "Packet_ctor st type data = (m, [])" and m_eq: "m = \<lparr>mType = type, mSize = ?S, mData = data\<rparr>"
    using Packet_ctor_accepts [OF kind size] m by simp_all
  have uS: "unat ?S = length data + 4"
    using size by (rule unat_wire_length)
  have wire: "TcpSocket_send m = ?wire"
    by (simp add: TcpSocket_send_eq m_eq)
  have L: "unat (word_cat (ucast (drop_bit 8 ?S) :: byte) (ucast ?S :: byte) :: uint16) = length ?wire"
    by (simp only: word_cat_bytes uS) simp
  have pkt: "Packet_ctor st (word_cat (ucast (drop_bit 8 type) :: byte) (ucast type :: byte)) data = (m, [])"
    by (simp only: word_cat_bytes ctor)
  have fits: "length ?wire \<le> length buf"
    using size cap by simp
  obtain b' where run: "ingest_all st chunks (b, log) = Some (Inr (b', log))"
      and q: "mStoredPackets b' = [m]"
    using ingest_all_fill [OF refl L pkt fits buf empty(1) _ _ _ empty(2), of chunks log]
      chunks wire by auto
  have "getPacket b' = Inr (m, b'\<lparr>mStoredPackets := []\<rparr>)"
    by (simp add: getPacket_def q)
  then show ?thesis
    using run q uS by (auto simp add: m_eq)
qed

theorem framing_round_trip_witness:
  "\<exists>b'. ingest_all default_statics [[0], [7, 0], [7, 1, 2], [3]]
           (\<lparr>mBuffer = Some (replicate 65535 0), mBufSize = 65535,
             mCurrentlyStoredBytes = 0, mStoredPackets = []\<rparr>, []) = Some (Inr (b', []))
        \<and> mStoredPackets b' = [\<lparr>mType = 7, mSize = 7, mData = [1, 2, 3]\<rparr>]
        \<and> getPacket b' = Inr (\<lparr>mType = 7, mSize = 7, mData = [1, 2, 3]\<rparr>, b'\<lparr>mStoredPackets := []\<rparr>)"
proof -
  let ?m = "\<lparr>mType = 7, mSize = 7, mData = [1, 2, 3]\<rparr> :: Packet"
  have kind: "(7::uint16) \<noteq> EMPTY_PACKET_TYPE default_statics"
    by (simp add: default_statics_def)
  have size: "length [1, 2, 3 :: byte] + 4 \<le> unat (maxSize default_statics)"
    by (simp add: default_statics_def)
  have m: "?m = fst (Packet_ctor default_statics 7 [1, 2, 3])"
    by (simp add: Packet_ctor_def default_statics_def payload_limit_def)
  have cap: "unat (maxSize default_statics) \<le> length (replicate 65535 (0::byte))"
    by (simp add: default_statics_def)
  have chunks: "concat [[0], [7, 0], [7, 1, 2], [3]] = TcpSocket_send ?m"
    by (simp add: TcpSocket_send_eq)
  show ?thesis
    using framing_round_trip [OF kind size m _ cap _ _ chunks,
        of "\<lparr>mBuffer = Some (replicate 65535 0), mBufSize = 65535,
             mCurrentlyStoredBytes = 0, mStoredPackets = []\<rparr>" "[]"]
    by simp
qed

section \<open>The stop conditions of the extraction loop\<close>

text \<open>
  The loop is entered as soon as two bytes are stored, enough for the length field.  A
  buffer that holds nothing and receives the two bytes 0, 2 (a declared length of 2)
  gets a packet built from them: the kind is read from the two bytes behind the stored
  ones, and the stored bytes are consumed.
\<close>

theorem buildPackets_short_header_counterexample:
  "ingest default_statics [0, 2]
     (\<lparr>mBuffer = Some (replicate 65535 0), mBufSize = 65535,
       mCurrentlyStoredBytes = 0, mStoredPackets = []\<rparr>, []) =
   Some (Inr (\<lparr>mBuffer = Some (replicate 65535 0), mBufSize = 65535,
               mCurrentlyStoredBytes = 0,
               mStoredPackets = [\<lparr>mType = 0, mSize = 4, mData = []\<rparr>]\<rparr>, []))"
proof -
  let ?buf = "0 # 2 # replicate 65533 (0::byte)"
  let ?p = "\<lparr>mType = 0, mSize = 4, mData = []\<rparr> :: Packet"
  let ?b = "\<lparr>mBuffer = Some ?buf, mBufSize = 65535,
       mCurrentlyStoredBytes = 2, mStoredPackets = []\<rparr>"
  let ?b' = "\<lparr>mBuffer = Some (replicate 65535 0), mBufSize = 65535,
       mCurrentlyStoredBytes = 0, mStoredPackets = [?p]\<rparr>"
  have ps: "ntohs (read_uint16 ?buf 0) = 2"
    by (simp add: ntohs_read_uint16)
  have kind: "ntohs (read_uint16 ?buf 2) = 0"
    by (simp add: ntohs_read_uint16)
  have pkt: "Packet_ctor default_statics (ntohs (read_uint16 ?buf 2)) (take (unat (2::uint16) - 4) (drop 4 ?buf))
      = (?p, [])"
    unfolding kind by (simp add: Packet_ctor_def default_statics_def payload_limit_def)
  have rep: "replicate 2 0 @ replicate 65533 (0::byte) = replicate 65535 0"
    by (simp only: replicate_add [symmetric]) simp
  have tgt: "?b\<lparr>mBuffer := Some (take (mCurrentlyStoredBytes ?b - unat (2::uint16)) (drop (unat (2::uint16)) ?buf)
                           @ replicate (unat (2::uint16)) 0
                           @ drop (mCurrentlyStoredBytes ?b) ?buf),
          mCurrentlyStoredBytes := mCurrentlyStoredBytes ?b - unat (2::uint16),
          mStoredPackets := mStoredPackets ?b @ [?p]\<rparr> = ?b'"
    by (simp add: rep)
  have "buildPackets_loop default_statics ?b [] = buildPackets_loop default_statics ?b' ([] @ [])"
    unfolding tgt [symmetric]
    by (rule buildPackets_loop_step [OF _ _ _ _ _ ps [symmetric] _ pkt]) simp_all
  also have "\<dots> = Some (Inr (?b', []))"
    by (simp add: buildPackets_loop_few)
  finally have loop: "buildPackets_loop default_statics ?b [] = Some (Inr (?b', []))" .
  have "store_bytes \<lparr>mBuffer = Some (replicate 65535 0), mBufSize = 65535,
       mCurrentlyStoredBytes = 0, mStoredPackets = []\<rparr> [0, 2] =
     Inr \<lparr>mBuffer = Some ?buf, mBufSize = 65535, mCurrentlyStoredBytes = 0, mStoredPackets = []\<rparr>"
    by (simp add: store_bytes_def)
  then show ?thesis
    by (simp add: ingest_def buildPackets_def ssize_to_int_def loop)
qed

text \<open>
  C4, as the code has it.  The extraction loop stops, building nothing and leaving the
  buffer as it is, whenever fewer than 2 bytes are stored.  With exactly 2 or 3 stored
  bytes it does read the length field, and when that field is at least 4 it stops in the
  same way: no packet is built and the buffer is unchanged.
\<close>

theorem buildPackets_loop_stops:
  "(mCurrentlyStoredBytes b < 2 \<longrightarrow> buildPackets_loop st b log = Some (Inr (b, log)))
   \<and> (mBuffer b = Some buf \<and> 2 \<le> length buf
        \<and> (mCurrentlyStoredBytes b = 2 \<or> mCurrentlyStoredBytes b = 3)
        \<and> 4 \<le> unat (ntohs (read_uint16 buf 0))
      \<longrightarrow> buildPackets_loop st b log = Some (Inr (b, log)))"
proof (intro conjI impI)
  assume "mCurrentlyStoredBytes b < 2"
  then show "buildPackets_loop st b log = Some (Inr (b, log))"
    by (rule buildPackets_loop_few)
next
  assume a: "mBuffer b = Some buf \<and> 2 \<le> length buf
        \<and> (mCurrentlyStoredBytes b = 2 \<or> mCurrentlyStoredBytes b = 3)
        \<and> 4 \<le> unat (ntohs (read_uint16 buf 0))"
  then have "mCurrentlyStoredBytes b < unat (ntohs (read_uint16 buf 0))"
    by auto
  with a show "buildPackets_loop st b log = Some (Inr (b, log))"
    by (intro buildPackets_loop_incomplete [where buf = buf]) simp_all
qed

theorem buildPackets_loop_stops_witness:
  "buildPackets_loop default_statics
     \<lparr>mBuffer = Some (replicate 65535 0), mBufSize = 65535,
      mCurrentlyStoredBytes = 1, mStoredPackets = []\<rparr> [] =
   Some (Inr (\<lparr>mBuffer = Some (replicate 65535 0), mBufSize = 65535,
      mCurrentlyStoredBytes = 1, mStoredPackets = []\<rparr>, []))
   \<and> buildPackets_loop default_statics
     \<lparr>mBuffer = Some ([0, 9, 0] @ replicate 65532 0), mBufSize = 65535,
      mCurrentlyStoredBytes = 3, mStoredPackets = []\<rparr> [] =
   Some (Inr (\<lparr>mBuffer = Some ([0, 9, 0] @ replicate 65532 0), mBufSize = 65535,
      mCurrentlyStoredBytes = 3, mStoredPackets = []\<rparr>, []))"
proof -
  have "ntohs (read_uint16 ([0, 9, 0] @ replicate 65532 0) 0) = 9"
    by (simp add: ntohs_read_uint16)
  then show ?thesis
    using buildPackets_loop_stops [where b = "\<lparr>mBuffer = Some (replicate 65535 0), mBufSize = 65535,
      mCurrentlyStoredBytes = 1, mStoredPackets = []\<rparr>" and st = default_statics and log = "[]"]
      buildPackets_loop_stops [where b = "\<lparr>mBuffer = Some ([0, 9, 0] @ replicate 65532 0), mBufSize = 65535,
      mCurrentlyStoredBytes = 3, mStoredPackets = []\<rparr>" and buf = "[0, 9, 0] @ replicate 65532 0"
        and st = default_statics and log = "[]"]
    by simp
qed

section \<open>A declared length of zero\<close>

lemma buildPackets_loop_zero_length:
  assumes "mBuffer b = Some buf" and "4 \<le> length buf"
      and "ntohs (read_uint16 buf 0) = 0"
      and "2 \<le> mCurrentlyStoredBytes b"
      and "mCurrentlyStoredBytes b \<le> length buf"
      and "mCurrentlyStoredBytes b \<le> 65535"
  shows "buildPackets_loop st b log = None"
proof -
  let ?Inv = "\<lambda>b. mBuffer b = Some buf \<and> 2 \<le> mCurrentlyStoredBytes b
      \<and> mCurrentlyStoredBytes b \<le> length buf \<and> mCurrentlyStoredBytes b \<le> 65535"
  have "\<not> ?Inv b" if run: "buildPackets_loop st b log = Some r" for r
  proof (rule buildPackets_loop.raw_induct [where P = "\<lambda>st b log r. \<not> ?Inv b", OF _ run])
    fix f :: "statics \<Rightarrow> PacketBuffer \<Rightarrow> report list \<Rightarrow> (fault + PacketBuffer \<times> report list) option"
      and st :: statics and b :: PacketBuffer and log :: "report list"
      and r :: "fault + PacketBuffer \<times> report list"
    assume IH: "\<And>st b log r. f st b log = Some r \<Longrightarrow> \<not> ?Inv b"
    assume body: "(if mCurrentlyStoredBytes b \<ge> 2 then
        (case mBuffer b of
           None \<Rightarrow> Some (Inl NullPointer)
         | Some buf \<Rightarrow>
             if length buf < 2 then Some (Inl OutOfBounds)
             else
               let packetSize = ntohs (read_uint16 buf 0) in
               if mCurrentlyStoredBytes b \<ge> unat packetSize then
                 (case collectData buf packetSize 4 [] of
                    Inl f \<Rightarrow> Some (Inl f)
                  | Inr ss \<Rightarrow>
                      if length buf < 4 then Some (Inl OutOfBounds)
                      else
                        let (packet, reports) = Packet_ctor st (ntohs (read_uint16 buf 2)) ss in
                        (case shiftDown packetSize (mCurrentlyStoredBytes b) packetSize buf of
                           None \<Rightarrow> None
                         | Some (Inl f) \<Rightarrow> Some (Inl f)
                         | Some (Inr buf') \<Rightarrow>
                             let stored' = mCurrentlyStoredBytes b - unat packetSize in
                             if stored' + unat packetSize > length buf' then Some (Inl OutOfBounds)
                             else
                               f st
                                 (b\<lparr>mBuffer := Some (memset_zero buf' stored' (unat packetSize)),
                                    mCurrentlyStoredBytes := stored',
                                    mStoredPackets := mStoredPackets b @ [packet]\<rparr>)
                                 (log @ reports)))
               else Some (Inr (b, log)))
      else Some (Inr (b, log))) = Some r"
    show "\<not> ?Inv b"
    proof
      assume inv: "?Inv b"
      let ?s = "mCurrentlyStoredBytes b"
      obtain packet reports where pkt: "Packet_ctor st (ntohs (read_uint16 buf 2)) [] = (packet, reports)"
        by (cases "Packet_ctor st (ntohs (read_uint16 buf 2)) []") auto
      have cd: "collectData buf 0 4 [] = Inr []"
        using collectData_eq [of 0 buf 4 "[]"] by simp
      have sd: "shiftDown 0 ?s 0 buf = Some (Inr buf)"
        using shiftDown_eq [of ?s buf 0 0] inv by simp
      have ms: "memset_zero buf ?s 0 = buf"
        by (simp add: memset_zero_def)
      let ?b' = "b\<lparr>mBuffer := Some buf, mCurrentlyStoredBytes := ?s,
                     mStoredPackets := mStoredPackets b @ [packet]\<rparr>"
      have "f st ?b' (log @ reports) = Some r"
        using body inv assms(2,3) by (simp add: cd pkt sd ms)
      then have "\<not> ?Inv ?b'"
        by (rule IH)
      then show False
        using inv by simp
    qed
  qed
  then have never: "buildPackets_loop st b log \<noteq> Some r" for r
    using assms by blast
  show ?thesis
  proof (rule ccontr)
    assume "buildPackets_loop st b log \<noteq> None"
    then obtain r where "buildPackets_loop st b log = Some r"
      by auto
    then show False
      using never by simp
  qed
qed

text \<open>
  C10 fails on the code.  A buffer that holds nothing receives two bytes 0, 0: the
  declared length is 0, the loop builds a packet, removes no byte, and starts again
  with the same two bytes; \<open>buildPackets\<close> never returns.
\<close>

theorem buildPackets_zero_length_never_returns:
  "ingest default_statics [0, 0]
     (\<lparr>mBuffer = Some (replicate 65535 0), mBufSize = 65535,
       mCurrentlyStoredBytes = 0, mStoredPackets = []\<rparr>, []) = None"
proof -
  have sb: "store_bytes \<lparr>mBuffer = Some (replicate 65535 0), mBufSize = 65535,
       mCurrentlyStoredBytes = 0, mStoredPackets = []\<rparr> [0, 0] =
     Inr \<lparr>mBuffer = Some (0 # 0 # replicate 65533 0), mBufSize = 65535,
          mCurrentlyStoredBytes = 0, mStoredPackets = []\<rparr>"
    by (simp add: store_bytes_def)
  have "buildPackets_loop default_statics
     \<lparr>mBuffer = Some (0 # 0 # replicate 65533 0), mBufSize = 65535,
      mCurrentlyStoredBytes = 2, mStoredPackets = []\<rparr> [] = None"
    by (rule buildPackets_loop_zero_length [where buf = "0 # 0 # replicate 65533 0"])
       (simp_all add: ntohs_read_uint16)
  then show ?thesis
    by (simp add: ingest_def sb buildPackets_def ssize_to_int_def)
qed

section \<open>A batch of packets in one call\<close>

lemma take_shifted:
  assumes "p \<le> s" and "s \<le> length buf"
  shows "take (s - p) (take (s - p) (drop p buf) @ replicate p 0 @ drop s buf) = drop p (take s buf)"
proof -
  have "length (take (s - p) (drop p buf)) = s - p"
    using assms by simp
  then have "take (s - p) (take (s - p) (drop p buf) @ replicate p 0 @ drop s buf)
      = take (s - p) (drop p buf)"
    by simp
  then show ?thesis
    by (simp only: drop_take)
qed

text \<open>
  Up to 65535 stored bytes the loop does drain a whole batch in one call: if the stored
  bytes are the wire images of the packets \<open>ms\<close>, one after the other, every one of
  them is appended to the queue, in order, and no byte stays behind.
\<close>

lemma buildPackets_loop_batch:
  assumes "\<forall>m \<in> set ms. \<exists>type data. type \<noteq> EMPTY_PACKET_TYPE st
              \<and> length data + 4 \<le> unat (maxSize st) \<and> m = fst (Packet_ctor st type data)"
      and "mBuffer b = Some buf" and "4 \<le> length buf"
      and "mCurrentlyStoredBytes b \<le> length buf" and "mCurrentlyStoredBytes b \<le> 65535"
      and "take (mCurrentlyStoredBytes b) buf = concat (map TcpSocket_send ms)"
  shows "\<exists>b'. buildPackets_loop st b log = Some (Inr (b', log))
            \<and> mStoredPackets b' = mStoredPackets b @ ms \<and> mCurrentlyStoredBytes b' = 0"
  using assms
proof (induction ms arbitrary: b buf)
  case Nil
  then have "mCurrentlyStoredBytes b = 0"
    by auto
  then show ?case
    by (simp add: buildPackets_loop_few)
next
  case (Cons m ms)
  obtain type data where kind: "type \<noteq> EMPTY_PACKET_TYPE st"
      and size: "length data + 4 \<le> unat (maxSize st)"
      and m: "m = fst (Packet_ctor st type data)"
    using Cons.prems(1) by auto
  let ?S = "of_nat (length data + 4) :: uint16"
  let ?wire = "[ucast (drop_bit 8 ?S), ucast ?S, ucast (drop_bit 8 type), ucast type] @ data"
  let ?s = "mCurrentlyStoredBytes b"
  let ?L = "length ?wire"
  have ctor: "Packet_ctor st type data = (m, [])"
      and m_eq: "m = \<lparr>mType = type, mSize = ?S, mData = data\<rparr>"
    using Packet_ctor_accepts [OF kind size] m by simp_all
  have uS: "unat ?S = ?L"
    using unat_wire_length [OF size] by simp
  have wire: "TcpSocket_send m = ?wire"
    by (simp add: TcpSocket_send_eq m_eq)
  define rest where "rest = concat (map TcpSocket_send ms)"
  have stored: "take ?s buf = ?wire @ rest"
    using Cons.prems(6) by (simp only: list.map concat.simps wire rest_def)
  have s_len: "?s = ?L + length rest"
  proof -
    have "length (take ?s buf) = ?s"
      using Cons.prems(4) by simp
    then show ?thesis
      by (simp only: stored length_append)
  qed
  have prefix: "take ?L buf = ?wire"
  proof -
    have "take ?L buf = take ?L (take ?s buf)"
      using s_len by (simp add: min_def)
    also have "\<dots> = take ?L (?wire @ rest)"
      by (simp only: stored)
    also have "\<dots> = ?wire"
      by simp
    finally show ?thesis .
  qed
  have nth: "?wire ! i = buf ! i" if "i < 4" for i
  proof -
    have "take ?L buf ! i = buf ! i"
      using that by (intro nth_take) simp
    then show ?thesis
      by (simp only: prefix)
  qed
  have nths: "buf ! 0 = ucast (drop_bit 8 ?S)" "buf ! 1 = ucast ?S"
    "buf ! 2 = ucast (drop_bit 8 type)" "buf ! 3 = ucast type"
    using nth [of 0] nth [of 1] nth [of 2] nth [of 3] by simp_all
  have ps: "ntohs (read_uint16 buf 0) = ?S"
    using nths by (simp add: ntohs_read_uint16 word_cat_bytes)
  have kind': "ntohs (read_uint16 buf 2) = type"
    using nths by (simp add: ntohs_read_uint16 word_cat_bytes)
  have payload: "take (unat ?S - 4) (drop 4 buf) = data"
  proof -
    have "take (unat ?S - 4) (drop 4 buf) = take (?L - 4) (drop 4 buf)"
      by (simp only: uS)
    also have "\<dots> = drop 4 (take ?L buf)"
      by (simp only: drop_take)
    also have "\<dots> = drop 4 ?wire"
      by (simp only: prefix)
    also have "\<dots> = data"
      by simp
    finally show ?thesis .
  qed
  have pkt: "Packet_ctor st (ntohs (read_uint16 buf 2)) (take (unat ?S - 4) (drop 4 buf)) = (m, [])"
    by (simp only: kind' payload ctor)
  define p where "p = unat ?S"
  have pL: "p = ?L"
    unfolding p_def by (rule uS)
  let ?buf' = "take (?s - p) (drop p buf) @ replicate p 0 @ drop ?s buf"
  let ?b' = "b\<lparr>mBuffer := Some ?buf', mCurrentlyStoredBytes := ?s - p,
               mStoredPackets := mStoredPackets b @ [m]\<rparr>"
  have two: "2 \<le> ?s" and whole: "p \<le> ?s"
    using s_len pL by simp_all
  have step: "buildPackets_loop st b log = buildPackets_loop st ?b' (log @ [])"
    unfolding p_def
    by (rule buildPackets_loop_step
        [OF Cons.prems(2,3) two Cons.prems(4,5) ps [symmetric] whole [unfolded p_def] pkt])
  have len': "length ?buf' = length buf"
    using whole Cons.prems(4) by simp
  have "take (?s - p) ?buf' = drop p (take ?s buf)"
    using whole Cons.prems(4) by (rule take_shifted)
  also have "\<dots> = drop ?L (?wire @ rest)"
    by (simp only: stored pL)
  also have "\<dots> = rest"
    by simp
  finally have rest': "take (mCurrentlyStoredBytes ?b') ?buf' = concat (map TcpSocket_send ms)"
    by (simp add: rest_def)
  have "\<exists>b''. buildPackets_loop st ?b' log = Some (Inr (b'', log))
            \<and> mStoredPackets b'' = mStoredPackets ?b' @ ms \<and> mCurrentlyStoredBytes b'' = 0"
  proof (rule Cons.IH [where buf = ?buf'])
    show "\<forall>m \<in> set ms. \<exists>type data. type \<noteq> EMPTY_PACKET_TYPE st
              \<and> length data + 4 \<le> unat (maxSize st) \<and> m = fst (Packet_ctor st type data)"
      using Cons.prems(1) by simp
    show "mBuffer ?b' = Some ?buf'" by simp
    show "4 \<le> length ?buf'" using len' Cons.prems(3) by simp
    show "mCurrentlyStoredBytes ?b' \<le> length ?buf'"
      using len' Cons.prems(4) by simp
    show "mCurrentlyStoredBytes ?b' \<le> 65535"
      using Cons.prems(5) by simp
    show "take (mCurrentlyStoredBytes ?b') ?buf' = concat (map TcpSocket_send ms)"
      by (rule rest')
  qed
  then show ?case
    using step by auto
qed

section \<open>More than 65535 stored bytes\<close>

lemma shiftDown_wraps:
  assumes "65536 \<le> stored" and "65536 \<le> length buf"
      and "0 < packetSize" and "packetSize \<le> i"
  shows "shiftDown packetSize stored i buf = Some (Inl OutOfBounds)"
  using assms(2,4)
proof (induction "65535 - unat i" arbitrary: i buf)
  case 0
  have "unat i < 2 ^ LENGTH(16)"
    by (rule unsigned_less)
  then have "unat i = 65535"
    using 0 by simp
  then have i: "i = 65535"
    by (simp add: word_unat_eq_iff)
  have next_step: "shiftDown packetSize stored 0 (buf[unat i - unat packetSize := buf ! unat i])
      = Some (Inl OutOfBounds)"
    using assms(1,3) by (subst shiftDown.simps) (simp add: word_le_nat_alt word_less_nat_alt)
  have wrap: "(65536 :: uint16) = 0"
    by simp
  show ?case
    using assms(1) "0.prems" next_step
    by (subst shiftDown.simps) (simp add: i wrap)
next
  case (Suc n)
  have lt: "unat i < 65535"
    using Suc.hyps(2) by simp
  then have u: "unat (i + 1) = Suc (unat i)"
    by (intro unat_succ_bound [where n = 65535]) simp_all
  have le': "packetSize \<le> i + 1"
    using Suc.prems(2) u by (simp add: word_le_nat_alt)
  have "shiftDown packetSize stored (i + 1) (buf[unat i - unat packetSize := buf ! unat i])
      = Some (Inl OutOfBounds)"
    using Suc.hyps(1) [of "i + 1" "buf[unat i - unat packetSize := buf ! unat i]"]
      Suc.hyps(2) Suc.prems(1) le' u by simp
  then show ?case
    using assms(1) Suc.prems lt
    by (subst shiftDown.simps) simp
qed


lemma buildPackets_loop_beyond_16_bits:
  assumes buf: "mBuffer b = Some buf" and len: "65536 \<le> length buf"
      and stored: "65536 \<le> mCurrentlyStoredBytes b"
      and nonzero: "0 < ntohs (read_uint16 buf 0)"
  shows "buildPackets_loop st b log = Some (Inl OutOfBounds)"
proof -
  let ?ps = "ntohs (read_uint16 buf 0)"
  have "unat ?ps < 2 ^ LENGTH(16)"
    by (rule unsigned_less)
  then have ups: "unat ?ps \<le> 65535"
    by simp
  have cd: "collectData buf ?ps 4 [] = Inr (take (unat ?ps - 4) (drop 4 buf))"
    using collectData_eq [of ?ps buf 4 "[]"] ups len by simp
  obtain packet reports where
    pkt: "Packet_ctor st (ntohs (read_uint16 buf 2)) (take (unat ?ps - 4) (drop 4 buf)) = (packet, reports)"
    by (cases "Packet_ctor st (ntohs (read_uint16 buf 2)) (take (unat ?ps - 4) (drop 4 buf))") auto
  have sd: "shiftDown ?ps (mCurrentlyStoredBytes b) ?ps buf = Some (Inl OutOfBounds)"
    using stored len nonzero by (intro shiftDown_wraps) simp_all
  show ?thesis
    using stored len ups
    by (subst buildPackets_loop.simps) (simp add: buf cd pkt sd Let_def)
qed

text \<open>
  C2 fails on the code once more than 65535 bytes are stored.  A buffer of 131070 bytes
  (twice the largest packet, as the constructor's comment recommends) receives three
  well-formed messages in a row: kind 1 with 65531 payload bytes (declared length
  65535), kind 2 and kind 3 with no payload (declared length 4 each), 65543 bytes in
  all, and \<open>buildPackets\<close> is called once.  The first packet is built, then the 16-bit
  counter of the shift loop can never reach the bound 65543: it wraps to 0, and the
  write to \<open>mBuffer[0 - 65535]\<close> is outside the array.
\<close>

theorem buildPackets_three_messages_overflow:
  "ingest default_statics
     ([255, 255, 0, 1] @ replicate 65531 0 @ [0, 4, 0, 2] @ [0, 4, 0, 3])
     (\<lparr>mBuffer = Some (replicate 131070 0), mBufSize = 131070,
       mCurrentlyStoredBytes = 0, mStoredPackets = []\<rparr>, []) = Some (Inl OutOfBounds)"
proof -
  let ?wire = "[255, 255, 0, 1] @ replicate 65531 0 @ [0, 4, 0, 2] @ [0, 4, 0, 3] :: byte list"
  let ?buf = "?wire @ replicate 65527 0"
  let ?b0 = "\<lparr>mBuffer = Some (replicate 131070 0), mBufSize = 131070,
       mCurrentlyStoredBytes = 0, mStoredPackets = []\<rparr>"
  have lw: "length ?wire = 65543"
    by simp
  have sb: "store_bytes ?b0 ?wire = Inr (?b0\<lparr>mBuffer := Some ?buf\<rparr>)"
    unfolding store_bytes_def by (simp only: lw) simp
  have conv: "ssize_to_int (int (length ?wire)) = 65543"
    by (simp only: lw) (simp add: ssize_to_int_def)
  have "word_cat (255::byte) (255::byte) = (65535::uint16)"
    by (simp add: word_cat_eq)
  then have hdr: "ntohs (read_uint16 ?buf 0) = 65535"
    by (simp add: ntohs_read_uint16)
  have "buildPackets_loop default_statics
      (?b0\<lparr>mBuffer := Some ?buf, mCurrentlyStoredBytes := 65543\<rparr>) [] = Some (Inl OutOfBounds)"
    by (rule buildPackets_loop_beyond_16_bits [where buf = ?buf]) (simp_all only: hdr, simp_all)
  then have "buildPackets default_statics 65543 (?b0\<lparr>mBuffer := Some ?buf\<rparr>) [] = Some (Inl OutOfBounds)"
    by (simp add: buildPackets_def)
  then show ?thesis
    unfolding ingest_def by (simp only: fst_conv snd_conv sb conv sum.case)
qed

section \<open>Constructing a buffer\<close>

text \<open>
  The constructor has no call of an error callback.  For a requested size of 100 bytes,
  below the default \<open>maxSize\<close>, the buffer comes out null with size 0, and the list
  of reports is empty.
\<close>

theorem PacketBuffer_ctor_undersized_counterexample:
  "PacketBuffer_ctor default_statics (\<lambda>i. 0) 100 =
     (\<lparr>mBuffer = None, mBufSize = 0, mCurrentlyStoredBytes = 0, mStoredPackets = []\<rparr>, [])"
  by (simp add: PacketBuffer_ctor_def default_statics_def)

text \<open>
  C6, as the code has it.  Constructing a buffer with a size below \<open>Packet::maxSize\<close>
  reports nothing; the buffer is left unusable, \<open>getBuffer()\<close> null and \<open>getSize()\<close> 0,
  with no stored bytes and no packets.  Constructing it with a size of at least
  \<open>maxSize\<close> reports nothing either and allocates an array of exactly the requested
  size, \<open>getSize()\<close> equal to it, with no stored bytes and no packets.
\<close>

theorem PacketBuffer_ctor_sizes:
  "(sz < unat (maxSize st) \<longrightarrow>
      snd (PacketBuffer_ctor st fresh sz) = []
      \<and> getBuffer (fst (PacketBuffer_ctor st fresh sz)) = None
      \<and> getSize (fst (PacketBuffer_ctor st fresh sz)) = 0
      \<and> getCurrentSize (fst (PacketBuffer_ctor st fresh sz)) = 0
      \<and> \<not> isPacketsStored (fst (PacketBuffer_ctor st fresh sz)))
   \<and> (unat (maxSize st) \<le> sz \<longrightarrow>
      snd (PacketBuffer_ctor st fresh sz) = []
      \<and> (\<exists>buf. getBuffer (fst (PacketBuffer_ctor st fresh sz)) = Some buf \<and> length buf = sz)
      \<and> getSize (fst (PacketBuffer_ctor st fresh sz)) = sz
      \<and> getCurrentSize (fst (PacketBuffer_ctor st fresh sz)) = 0
      \<and> \<not> isPacketsStored (fst (PacketBuffer_ctor st fresh sz)))"
  by (simp add: PacketBuffer_ctor_def getBuffer_def getSize_def getCurrentSize_def
      isPacketsStored_def)

theorem PacketBuffer_ctor_sizes_witness:
  "snd (PacketBuffer_ctor default_statics (\<lambda>i. 0) 65534) = []
   \<and> getBuffer (fst (PacketBuffer_ctor default_statics (\<lambda>i. 0) 65534)) = None
   \<and> getSize (fst (PacketBuffer_ctor default_statics (\<lambda>i. 0) 65534)) = 0
   \<and> snd (PacketBuffer_ctor default_statics (\<lambda>i. 0) 65535) = []
   \<and> (\<exists>buf. getBuffer (fst (PacketBuffer_ctor default_statics (\<lambda>i. 0) 65535)) = Some buf
         \<and> length buf = 65535)
   \<and> getSize (fst (PacketBuffer_ctor default_statics (\<lambda>i. 0) 65535)) = 65535
   \<and> getCurrentSize (fst (PacketBuffer_ctor default_statics (\<lambda>i. 0) 65535)) = 0"
proof -
  have a: "(65534::nat) < unat (maxSize default_statics)"
    and b: "unat (maxSize default_statics) \<le> (65535::nat)"
    by (simp_all add: default_statics_def)
  show ?thesis
    using PacketBuffer_ctor_sizes [of 65534 default_statics "\<lambda>i. 0"]
      PacketBuffer_ctor_sizes [of 65535 default_statics "\<lambda>i. 0"] a b
    by blast
qed

section \<open>A failed read\<close>

text \<open>
  The receive functions whose error branches return: a failed read is reported as
  \<open>ERROR_SOCKET_RECEIVE\<close>, the buffer is left as it was, and the call ends with this one
  read request.
\<close>

lemma receive_failure_returns:
  "TcpSocket_receive st sock (ReadFails # os) b log =
     ([(getCurrentSize b, getSize b div 2)],
      Returns (b, log @ [SocketError sock ERROR_SOCKET_RECEIVE]))"
  "TcpSocket_receive_address st sock (ReadFails # os) b log =
     ([(getCurrentSize b, getSize b div 2)],
      Returns (b, log @ [SocketError sock ERROR_SOCKET_RECEIVE]))"
  "UdpSocket_receive_address st sock (ReadFails # os) b log =
     ([(getCurrentSize b, getSize b)],
      Returns (b, log @ [SocketError sock ERROR_SOCKET_RECEIVE]))"
  by (simp_all add: TcpSocket_receive.simps TcpSocket_receive_address_def)

text \<open>
  C7 fails on \<open>UdpSocket::receive(buffer, flags)\<close>.  The buffer holds one byte of an
  unfinished header; the first \<open>recvfrom\<close> fails, the second delivers a datagram with
  the four bytes 0, 4, 0, 7.  The failure is reported, but the call goes on: the count
  -1 is added to the stored bytes, which drops the stored byte, and a second read is
  issued, at offset 0; the call returns with the packet of that datagram.
\<close>

theorem UdpSocket_receive_failure_goes_on:
  "UdpSocket_receive default_statics 5 [ReadFails, ReadData [0, 4, 0, 7]]
     \<lparr>mBuffer = Some (replicate 65535 0), mBufSize = 65535,
      mCurrentlyStoredBytes = 1, mStoredPackets = []\<rparr> [] =
   ([(1, 65535), (0, 65535)],
    Returns (\<lparr>mBuffer = Some (replicate 65535 0), mBufSize = 65535,
              mCurrentlyStoredBytes = 0,
              mStoredPackets = [\<lparr>mType = 7, mSize = 4, mData = []\<rparr>]\<rparr>,
             [SocketError 5 ERROR_SOCKET_RECEIVE]))"
proof -
  let ?log = "[SocketError 5 ERROR_SOCKET_RECEIVE]"
  let ?buf = "0 # 4 # 0 # 7 # replicate 65531 (0::byte)"
  let ?p = "\<lparr>mType = 7, mSize = 4, mData = []\<rparr> :: Packet"
  let ?b0 = "\<lparr>mBuffer = Some (replicate 65535 0), mBufSize = 65535,
      mCurrentlyStoredBytes = 1, mStoredPackets = []\<rparr>"
  let ?b1 = "\<lparr>mBuffer = Some (replicate 65535 0), mBufSize = 65535,
      mCurrentlyStoredBytes = 0, mStoredPackets = []\<rparr>"
  let ?b2 = "\<lparr>mBuffer = Some ?buf, mBufSize = 65535,
       mCurrentlyStoredBytes = 4, mStoredPackets = []\<rparr>"
  let ?b3 = "\<lparr>mBuffer = Some (replicate 65535 0), mBufSize = 65535,
       mCurrentlyStoredBytes = 0, mStoredPackets = [?p]\<rparr>"
  have first: "buildPackets default_statics (ssize_to_int (- 1)) ?b0 ?log = Some (Inr (?b1, ?log))"
    by (simp add: buildPackets_def ssize_to_int_def buildPackets_loop_few)
  have sb: "store_bytes ?b1 [0, 4, 0, 7] =
      Inr \<lparr>mBuffer = Some ?buf, mBufSize = 65535, mCurrentlyStoredBytes = 0, mStoredPackets = []\<rparr>"
    by (simp add: store_bytes_def)
  have ps: "ntohs (read_uint16 ?buf 0) = 4"
    by (simp add: ntohs_read_uint16)
  have kind: "ntohs (read_uint16 ?buf 2) = 7"
    by (simp add: ntohs_read_uint16)
  have pkt: "Packet_ctor default_statics (ntohs (read_uint16 ?buf 2)) (take (unat (4::uint16) - 4) (drop 4 ?buf))
      = (?p, [])"
    unfolding kind by (simp add: Packet_ctor_def default_statics_def payload_limit_def)
  have rep: "replicate 4 0 @ replicate 65531 (0::byte) = replicate 65535 0"
    by (simp only: replicate_add [symmetric]) simp
  have tgt: "?b2\<lparr>mBuffer := Some (take (mCurrentlyStoredBytes ?b2 - unat (4::uint16)) (drop (unat (4::uint16)) ?buf)
                           @ replicate (unat (4::uint16)) 0
                           @ drop (mCurrentlyStoredBytes ?b2) ?buf),
          mCurrentlyStoredBytes := mCurrentlyStoredBytes ?b2 - unat (4::uint16),
          mStoredPackets := mStoredPackets ?b2 @ [?p]\<rparr> = ?b3"
    by (simp add: rep)
  have "buildPackets_loop default_statics ?b2 ?log = buildPackets_loop default_statics ?b3 (?log @ [])"
    unfolding tgt [symmetric]
    by (rule buildPackets_loop_step [OF _ _ _ _ _ ps [symmetric] _ pkt]) simp_all
  also have "\<dots> = Some (Inr (?b3, ?log))"
    by (simp add: buildPackets_loop_few)
  finally have loop: "buildPackets_loop default_statics ?b2 ?log = Some (Inr (?b3, ?log))" .
  have second: "buildPackets default_statics (ssize_to_int 4)
      \<lparr>mBuffer = Some ?buf, mBufSize = 65535, mCurrentlyStoredBytes = 0, mStoredPackets = []\<rparr> ?log
      = Some (Inr (?b3, ?log))"
    by (simp add: buildPackets_def ssize_to_int_def loop)
  have first': "buildPackets default_statics (ssize_to_int (- 1))
      \<lparr>mBuffer = Some (replicate 65535 0), mBufSize = 65535,
       mCurrentlyStoredBytes = Suc 0, mStoredPackets = []\<rparr> ?log = Some (Inr (?b1, ?log))"
    using first by simp
  show ?thesis
    by (simp add: Let_def getCurrentSize_def getSize_def first' sb second isPacketsStored_def)
qed

section \<open>The reads of TcpSocket::receive\<close>

lemma word_cat_255: "word_cat (255::byte) (255::byte) = (65535::uint16)"
  by (simp add: word_cat_eq)

lemma TcpSocket_receive_round:
  assumes "take (mBufSize b div 2) bytes = got" and "got \<noteq> []"
      and "store_bytes b got = Inr b1"
      and "buildPackets st (ssize_to_int (int (length got))) b1 log = Some (Inr (b2, log2))"
      and "mStoredPackets b2 = []"
      and "(if length bytes \<le> mBufSize b div 2 then os
            else ReadData (drop (mBufSize b div 2) bytes) # os) = os'"
  shows "TcpSocket_receive st sock (ReadData bytes # os) b log =
     (case TcpSocket_receive st sock os' b2 log2 of
        (requests, out) \<Rightarrow> ((mCurrentlyStoredBytes b, mBufSize b div 2) # requests, out))"
  apply (subst TcpSocket_receive.simps)
  apply (simp only: Let_def getSize_def getCurrentSize_def assms)
  apply (simp add: assms isPacketsStored_def)
  done

text \<open>
  C3 fails on the code.  Each read does ask for \<open>getSize() / 2\<close> bytes at offset
  \<open>getCurrentSize()\<close>, but nothing keeps offset + requested length within the
  capacity.  A default buffer, 65535 bytes, that holds nothing receives a well-formed
  message of declared length 65535 (kind 1): 65534 of its bytes are ready at first, then
  two more bytes (its last one and the first of the next message).  The reads are
  issued at offsets 0, 32767 and 65534, each for 32767 bytes; the third request reaches
  beyond the capacity, and the second of the two bytes it gets is written past the end
  of the array.
\<close>

theorem TcpSocket_receive_writes_past_capacity:
  "TcpSocket_receive default_statics 5
     [ReadData ([255, 255, 0, 1] @ replicate 65530 0), ReadData [0, 0]]
     \<lparr>mBuffer = Some (replicate 65535 0), mBufSize = 65535,
      mCurrentlyStoredBytes = 0, mStoredPackets = []\<rparr> [] =
   ([(0, 32767), (32767, 32767), (65534, 32767)], Undefined OutOfBounds)"
proof -
  let ?b0 = "\<lparr>mBuffer = Some (replicate 65535 0), mBufSize = 65535,
      mCurrentlyStoredBytes = 0, mStoredPackets = []\<rparr>"
  let ?buf1 = "255 # 255 # 0 # 1 # replicate 65531 (0::byte)"
  let ?bw = "\<lparr>mBuffer = Some ?buf1, mBufSize = 65535,
      mCurrentlyStoredBytes = 0, mStoredPackets = []\<rparr>"
  let ?b1 = "\<lparr>mBuffer = Some ?buf1, mBufSize = 65535,
      mCurrentlyStoredBytes = 32767, mStoredPackets = []\<rparr>"
  let ?b2 = "\<lparr>mBuffer = Some ?buf1, mBufSize = 65535,
      mCurrentlyStoredBytes = 65534, mStoredPackets = []\<rparr>"
  let ?got1 = "255 # 255 # 0 # 1 # replicate 32763 (0::byte)"
  have half: "mBufSize ?b0 div 2 = 32767" "mBufSize ?b1 div 2 = 32767" "mBufSize ?b2 div 2 = 32767"
    by simp_all
  have hdr: "ntohs (read_uint16 ?buf1 0) = 65535"
    by (simp add: ntohs_read_uint16 word_cat_255)
  have rep1: "replicate 32763 0 @ replicate 32768 (0::byte) = replicate 65531 0"
    by (simp only: replicate_add [symmetric]) simp
  have got1: "take (mBufSize ?b0 div 2) ([255, 255, 0, 1] @ replicate 65530 (0::byte)) = ?got1"
    unfolding half by simp
  have left1: "(if length ([255, 255, 0, 1] @ replicate 65530 (0::byte)) \<le> mBufSize ?b0 div 2
        then [ReadData [0, 0]]
        else ReadData (drop (mBufSize ?b0 div 2) ([255, 255, 0, 1] @ replicate 65530 (0::byte)))
             # [ReadData [0, 0]]) = [ReadData (replicate 32767 0), ReadData [0, 0]]"
    unfolding half by simp
  have sb1: "store_bytes ?b0 ?got1 = Inr ?bw"
    using rep1 by (simp add: store_bytes_def)
  have loop1: "buildPackets_loop default_statics ?b1 [] = Some (Inr (?b1, []))"
    by (rule buildPackets_loop_incomplete [where buf = ?buf1]) (simp_all add: hdr)
  have bp1: "buildPackets default_statics (ssize_to_int (int (length ?got1))) ?bw [] = Some (Inr (?b1, []))"
    by (simp add: buildPackets_def ssize_to_int_def loop1)
  have step1: "TcpSocket_receive default_statics 5
     [ReadData ([255, 255, 0, 1] @ replicate 65530 0), ReadData [0, 0]] ?b0 [] =
     (case TcpSocket_receive default_statics 5 [ReadData (replicate 32767 0), ReadData [0, 0]] ?b1 [] of
        (requests, out) \<Rightarrow> ((mCurrentlyStoredBytes ?b0, mBufSize ?b0 div 2) # requests, out))"
    by (rule TcpSocket_receive_round [OF got1 _ sb1 bp1 _ left1]) simp_all
  have got2: "take (mBufSize ?b1 div 2) (replicate 32767 (0::byte)) = replicate 32767 0"
    unfolding half by simp
  have left2: "(if length (replicate 32767 (0::byte)) \<le> mBufSize ?b1 div 2
        then [ReadData [0, 0]]
        else ReadData (drop (mBufSize ?b1 div 2) (replicate 32767 (0::byte)))
             # [ReadData [0, 0]]) = [ReadData [0, 0]]"
    unfolding half by simp
  have sb2: "store_bytes ?b1 (replicate 32767 0) = Inr ?b1"
  proof -
    have "replicate 32763 0 @ replicate 32767 0 @ replicate 1 (0::byte) = replicate 65531 0"
      by (simp only: replicate_add [symmetric]) simp
    then show ?thesis
      by (simp add: store_bytes_def)
  qed
  have loop2: "buildPackets_loop default_statics ?b2 [] = Some (Inr (?b2, []))"
    by (rule buildPackets_loop_incomplete [where buf = ?buf1]) (simp_all add: hdr)
  have bp2: "buildPackets default_statics (ssize_to_int (int (length (replicate 32767 (0::byte))))) ?b1 []
      = Some (Inr (?b2, []))"
    by (simp add: buildPackets_def ssize_to_int_def loop2)
  have step2: "TcpSocket_receive default_statics 5 [ReadData (replicate 32767 0), ReadData [0, 0]] ?b1 [] =
     (case TcpSocket_receive default_statics 5 [ReadData [0, 0]] ?b2 [] of
        (requests, out) \<Rightarrow> ((mCurrentlyStoredBytes ?b1, mBufSize ?b1 div 2) # requests, out))"
    by (rule TcpSocket_receive_round [OF got2 _ sb2 bp2 _ left2]) simp_all
  have step3: "TcpSocket_receive default_statics 5 [ReadData [0, 0]] ?b2 [] =
     ([(65534, 32767)], Undefined OutOfBounds)"
    apply (subst TcpSocket_receive.simps)
    apply (simp add: Let_def getSize_def getCurrentSize_def store_bytes_def)
    done
  show ?thesis
    unfolding step1 step2 step3 by simp
qed

lemma buildPackets_loop_returns:
  assumes "buildPackets_loop st b log = Some r"
  shows "\<forall>b' log'. r = Inr (b', log') \<longrightarrow>
           mBufSize b' = mBufSize b \<and> mCurrentlyStoredBytes b' \<le> 65534"
proof (rule buildPackets_loop.raw_induct
    [where P = "\<lambda>st b log r. \<forall>b' log'. r = Inr (b', log') \<longrightarrow>
           mBufSize b' = mBufSize b \<and> mCurrentlyStoredBytes b' \<le> 65534", OF _ assms])
  fix f :: "statics \<Rightarrow> PacketBuffer \<Rightarrow> report list \<Rightarrow> (fault + PacketBuffer \<times> report list) option"
    and st :: statics and b :: PacketBuffer and log :: "report list"
    and r :: "fault + PacketBuffer \<times> report list"
  assume IH: "\<And>st b log r. f st b log = Some r \<Longrightarrow>
      \<forall>b' log'. r = Inr (b', log') \<longrightarrow>
           mBufSize b' = mBufSize b \<and> mCurrentlyStoredBytes b' \<le> 65534"
  assume body: "(if mCurrentlyStoredBytes b \<ge> 2 then
        (case mBuffer b of
           None \<Rightarrow> Some (Inl NullPointer)
         | Some buf \<Rightarrow>
             if length buf < 2 then Some (Inl OutOfBounds)
             else
               let packetSize = ntohs (read_uint16 buf 0) in
               if mCurrentlyStoredBytes b \<ge> unat packetSize then
                 (case collectData buf packetSize 4 [] of
                    Inl f \<Rightarrow> Some (Inl f)
                  | Inr ss \<Rightarrow>
                      if length buf < 4 then Some (Inl OutOfBounds)
                      else
                        let (packet, reports) = Packet_ctor st (ntohs (read_uint16 buf 2)) ss in
                        (case shiftDown packetSize (mCurrentlyStoredBytes b) packetSize buf of
                           None \<Rightarrow> None
                         | Some (Inl f) \<Rightarrow> Some (Inl f)
                         | Some (Inr buf') \<Rightarrow>
                             let stored' = mCurrentlyStoredBytes b - unat packetSize in
                             if stored' + unat packetSize > length buf' then Some (Inl OutOfBounds)
                             else
                               f st
                                 (b\<lparr>mBuffer := Some (memset_zero buf' stored' (unat packetSize)),
                                    mCurrentlyStoredBytes := stored',
                                    mStoredPackets := mStoredPackets b @ [packet]\<rparr>)
                                 (log @ reports)))
               else Some (Inr (b, log)))
      else Some (Inr (b, log))) = Some r"
  have bound: "unat (w :: uint16) \<le> 65535" for w
  proof -
    have "unat w < 2 ^ LENGTH(16)"
      by (rule unsigned_less)
    then show ?thesis by simp
  qed
  show "\<forall>b' log'. r = Inr (b', log') \<longrightarrow>
           mBufSize b' = mBufSize b \<and> mCurrentlyStoredBytes b' \<le> 65534"
  proof (cases "mCurrentlyStoredBytes b \<ge> 2")
    case False
    then show ?thesis using body by auto
  next
    case True
    note two = this
    show ?thesis
    proof (cases "mBuffer b")
      case None
      then show ?thesis using body two by auto
    next
      case (Some buf)
      let ?ps = "ntohs (read_uint16 buf 0)"
      show ?thesis
      proof (cases "length buf < 2 \<or> \<not> mCurrentlyStoredBytes b \<ge> unat ?ps")
        case True
        then show ?thesis
          using body two Some bound [of ?ps] by (auto simp add: Let_def split: if_splits)
      next
        case False
        then have c: "\<not> length buf < 2" "mCurrentlyStoredBytes b \<ge> unat ?ps"
          by simp_all
        from body two Some c
        have "\<exists>b2 log2. f st b2 log2 = Some r \<and> mBufSize b2 = mBufSize b
                \<or> (\<exists>e. r = Inl e)"
          by (auto simp add: Let_def split: sum.splits if_splits prod.splits option.splits)
        then show ?thesis
          using IH by fastforce
      qed
    qed
  qed
qed


lemma buildPackets_returns:
  assumes "buildPackets st n b log = Some (Inr (b', log'))"
  shows "mBufSize b' = mBufSize b \<and> mCurrentlyStoredBytes b' \<le> 65534"
  using buildPackets_loop_returns [OF assms [unfolded buildPackets_def]] by simp

lemma store_bytes_fields:
  assumes "store_bytes b got = Inr b1"
  shows "mBufSize b1 = mBufSize b \<and> mCurrentlyStoredBytes b1 = mCurrentlyStoredBytes b"
  using assms by (auto simp add: store_bytes_def split: option.splits if_splits)

text \<open>
  The overflow needs a capacity below 131067 bytes.  With at least that much (twice the
  largest declared length, which the constructor's comment recommends, is 131070) and
  at most 65534 stored bytes at the start, which is what \<open>buildPackets\<close> leaves
  whenever it returns, every read request of a call, whatever the operating system
  delivers, asks for half the capacity and has offset + requested length within the
  capacity.
\<close>

lemma TcpSocket_receive_large_buffer_fits:
  assumes "mCurrentlyStoredBytes b \<le> 65534" and "131067 \<le> getSize b"
  shows "hd (fst (TcpSocket_receive st sock os b log)) = (getCurrentSize b, getSize b div 2)
     \<and> (\<forall>request \<in> set (fst (TcpSocket_receive st sock os b log)).
           snd request = getSize b div 2 \<and> fst request + snd request \<le> getSize b)"
  using assms
proof (induction st sock os b log rule: TcpSocket_receive.induct)
  case (1 st sock b log)
  then show ?case
    by (simp add: TcpSocket_receive.simps getSize_def getCurrentSize_def)
next
  case (2 st sock os b log)
  then show ?case
    by (simp add: TcpSocket_receive.simps getSize_def getCurrentSize_def)
next
  case (3 st sock bytes os b log)
  let ?request = "(getCurrentSize b, getSize b div 2)"
  let ?got = "take (getSize b div 2) bytes"
  let ?os' = "if length bytes \<le> getSize b div 2 then os
              else ReadData (drop (getSize b div 2) bytes) # os"
  let ?run = "TcpSocket_receive st sock (ReadData bytes # os) b log"
  have fit: "snd ?request = getSize b div 2 \<and> fst ?request + snd ?request \<le> getSize b"
    using "3.prems" by (simp add: getSize_def getCurrentSize_def)
  have single: ?case if "fst ?run = [?request]"
    using that fit by simp
  show ?case
  proof (cases "?got = []")
    case True
    then have "fst ?run = [?request]"
      by (simp add: TcpSocket_receive.simps Let_def)
    then show ?thesis by (rule single)
  next
    case nonempty: False
    show ?thesis
    proof (cases "store_bytes b ?got")
      case (Inl e)
      then have "fst ?run = [?request]"
        using nonempty by (simp add: TcpSocket_receive.simps Let_def)
      then show ?thesis by (rule single)
    next
      case (Inr b1)
      note stored = this
      show ?thesis
      proof (cases "buildPackets st (ssize_to_int (int (length ?got))) b1 log")
        case None
        then have "fst ?run = [?request]"
          using nonempty stored by (simp add: TcpSocket_receive.simps Let_def)
        then show ?thesis by (rule single)
      next
        case (Some r)
        note built = this
        show ?thesis
        proof (cases r)
          case (Inl e)
          then have "fst ?run = [?request]"
            using nonempty stored built by (simp add: TcpSocket_receive.simps Let_def)
          then show ?thesis by (rule single)
        next
          case (Inr p)
          obtain b2 log2 where p: "(b2, log2) = p"
            by (cases p) auto
          show ?thesis
          proof (cases "isPacketsStored b2")
            case True
            then have "fst ?run = [?request]"
              using nonempty stored built Inr p
              by (auto simp add: TcpSocket_receive.simps Let_def)
            then show ?thesis by (rule single)
          next
            case False
            have fields: "mBufSize b2 = mBufSize b" "mCurrentlyStoredBytes b2 \<le> 65534"
              using buildPackets_returns [of st _ b1 log b2 log2] built Inr p
                store_bytes_fields [OF stored]
              by auto
            have size2: "getSize b2 = getSize b"
              using fields by (simp add: getSize_def)
            have "131067 \<le> getSize b2"
              using "3.prems" size2 by simp
            note "3.IH" [OF refl refl refl nonempty stored built Inr p False fields(2) this]
            then have IH: "\<forall>request \<in> set (fst (TcpSocket_receive st sock ?os' b2 log2)).
                snd request = getSize b div 2 \<and> fst request + snd request \<le> getSize b"
              unfolding size2 by (rule conjunct2)
            obtain rest where rest: "rest = fst (TcpSocket_receive st sock ?os' b2 log2)"
              by simp
            have run: "fst ?run = ?request # rest"
              unfolding rest using nonempty stored built Inr p False
              by (auto simp add: TcpSocket_receive.simps Let_def split: prod.splits)
            have "\<forall>request \<in> set rest.
                snd request = getSize b div 2 \<and> fst request + snd request \<le> getSize b"
              unfolding rest by (rule IH)
            then show ?thesis
              unfolding run using fit by fastforce
          qed
        qed
      qed
    qed
  qed
qed

section \<open>The cached highest descriptor\<close>

lemma rescan_Max: "rescan socks mx = Max (insert mx (set socks))"
proof (induction socks arbitrary: mx)
  case Nil
  then show ?case by simp
next
  case (Cons i rest)
  have "Max (insert mx (insert i (set rest))) = Max (insert (max i mx) (set rest))"
  proof (cases "set rest = {}")
    case True
    then show ?thesis by (simp add: max.commute)
  next
    case False
    then show ?thesis
      by (simp add: max.assoc max.commute max.left_commute)
  qed
  moreover have "(if i > mx then i else mx) = max i mx"
    by (simp add: max_def)
  ultimately show ?case
    using Cons.IH [of "max i mx"] by (simp add: insert_commute)
qed

lemma erase_first_eq:
  "erase_first sock socks mx =
     (remove1 sock socks, if sock \<in> set socks \<and> sock = mx then 0 else mx)"
  by (induction socks) auto

lemma cached_max_ok_add:
  assumes "cached_max_ok s"
  shows "cached_max_ok (add sock s)"
proof -
  have "Max (insert sock (insert 0 (set (mSockets s)))) = max sock (Max (insert 0 (set (mSockets s))))"
    by (rule Max_insert) simp_all
  moreover have "mSocketsMax (add sock s) = max sock (mSocketsMax s)"
    by (simp add: add_def max_def)
  moreover have "set (mSockets (add sock s)) = insert sock (set (mSockets s))"
    by (simp add: add_def)
  ultimately show ?thesis
    using assms by (simp add: cached_max_ok_def insert_commute)
qed

lemma cached_max_ok_remove:
  assumes "cached_max_ok s"
  shows "cached_max_ok (remove sock s)"
proof -
  define socks where "socks = mSockets s"
  define mx where "mx = mSocketsMax s"
  define socks' where "socks' = remove1 sock socks"
  define mx1 where "mx1 = (if sock \<in> set socks \<and> sock = mx then 0 else mx)"
  have mx: "mx = Max (insert 0 (set socks))"
    using assms by (simp add: cached_max_ok_def mx_def socks_def)
  have new: "mSockets (remove sock s) = socks'"
    "mSocketsMax (remove sock s) = (if mx1 = 0 then rescan socks' mx1 else mx1)"
    unfolding socks_def mx_def socks'_def mx1_def
    by (simp_all add: remove_def erase_first_eq split del: if_split)
  have "(if mx1 = 0 then rescan socks' mx1 else mx1) = Max (insert 0 (set socks'))"
  proof (cases "mx1 = 0")
    case True
    then show ?thesis
      by (simp add: rescan_Max)
  next
    case False
    then have keep: "mx1 = mx" and ne: "mx \<noteq> 0"
      by (auto simp add: mx1_def split: if_splits)
    have other: "sock \<noteq> mx \<or> sock \<notin> set socks"
      using False by (auto simp add: mx1_def split: if_splits)
    have "mx \<in> insert 0 (set socks)"
      unfolding mx by (rule Max_in) simp_all
    then have "mx \<in> set socks"
      using ne by simp
    then have "mx \<in> set socks'"
    proof (cases "sock \<in> set socks")
      case True
      then have "sock \<noteq> mx" using other by simp
      then show ?thesis
        using \<open>mx \<in> set socks\<close> by (simp add: socks'_def)
    next
      case False
      then show ?thesis
        using \<open>mx \<in> set socks\<close> by (simp add: socks'_def remove1_idem)
    qed
    then have mem: "mx \<in> insert 0 (set socks')"
      by simp
    have "x \<le> mx" if "x \<in> insert 0 (set socks')" for x
    proof -
      have "set socks' \<subseteq> set socks"
        unfolding socks'_def by (rule set_remove1_subset)
      then have "x \<in> insert 0 (set socks)"
        using that by blast
      then show ?thesis
        unfolding mx by (intro Max_ge) simp_all
    qed
    then have "Max (insert 0 (set socks')) = mx"
      using mem by (intro Max_eqI) simp_all
    then show ?thesis
      using False keep by simp
  qed
  then show ?thesis
    unfolding cached_max_ok_def new by simp
qed

lemma cached_max_ok_run_calls: "cached_max_ok s \<Longrightarrow> cached_max_ok (run_calls calls s)"
proof (induction calls arbitrary: s)
  case Nil
  then show ?case by simp
next
  case (Cons c calls)
  then show ?case
    by (cases c) (simp_all add: cached_max_ok_add cached_max_ok_remove)
qed

lemma tracked_after_add: "mSockets (add sock s) = mSockets s @ [sock]"
  by (simp add: add_def)

lemma tracked_after_remove: "mSockets (remove sock s) = remove1 sock (mSockets s)"
  by (simp add: remove_def erase_first_eq)

lemma tracked_nonnegative:
  assumes "\<forall>c \<in> set calls. 0 \<le> descriptor c" and "\<forall>i \<in> set (mSockets s). 0 \<le> i"
  shows "\<forall>i \<in> set (mSockets (run_calls calls s)). 0 \<le> i"
  using assms
proof (induction calls arbitrary: s)
  case Nil
  then show ?case by simp
next
  case (Cons c calls)
  show ?case
  proof (cases c)
    case (Add sock)
    have "\<forall>i \<in> set (mSockets (add sock s)). 0 \<le> i"
      using Cons.prems Add by (auto simp add: tracked_after_add)
    then show ?thesis
      using Cons.prems(1) Add Cons.IH [of "add sock s"] by simp
  next
    case (Remove sock)
    have "\<forall>i \<in> set (mSockets (remove sock s)). 0 \<le> i"
      using Cons.prems(2) set_remove1_subset [of sock "mSockets s"]
      by (auto simp add: tracked_after_remove)
    then show ?thesis
      using Cons.prems(1) Remove Cons.IH [of "remove sock s"] by simp
  qed
qed

lemma Selector_ctor_fields:
  "mSockets (Selector_ctor readable writable faulty) = []"
  "mSocketsMax (Selector_ctor readable writable faulty) = 0"
  by (simp_all add: Selector_ctor_def setFaulty_def setReadable_def setWritable_def
      split: option.splits)

text \<open>
  C9.  Descriptors are what the operating system hands out, never negative.  Starting
  from a newly constructed selector, after any sequence of \<open>add\<close> and \<open>remove\<close> calls the
  cached \<open>mSocketsMax\<close> is the largest descriptor among the sockets tracked at that
  moment, and 0 when none is tracked.  (So removing the socket that holds the maximum
  and adding one with a smaller descriptor leaves the maximum of what is tracked, not
  the removed value.)
\<close>

theorem Selector_cached_maximum:
  assumes "\<forall>c \<in> set calls. 0 \<le> descriptor c"
  shows "mSocketsMax (run_calls calls (Selector_ctor readable writable faulty)) =
     (if mSockets (run_calls calls (Selector_ctor readable writable faulty)) = [] then 0
      else Max (set (mSockets (run_calls calls (Selector_ctor readable writable faulty)))))"
proof -
  let ?s = "run_calls calls (Selector_ctor readable writable faulty)"
  have "cached_max_ok (Selector_ctor readable writable faulty)"
    by (simp add: cached_max_ok_def Selector_ctor_fields)
  then have "cached_max_ok ?s"
    by (rule cached_max_ok_run_calls)
  then have mx: "mSocketsMax ?s = Max (insert 0 (set (mSockets ?s)))"
    by (simp add: cached_max_ok_def)
  have nonneg: "\<forall>i \<in> set (mSockets ?s). 0 \<le> i"
    using assms by (intro tracked_nonnegative) (simp_all add: Selector_ctor_fields)
  show ?thesis
  proof (cases "mSockets ?s = []")
    case True
    then show ?thesis using mx by simp
  next
    case False
    then have ne: "set (mSockets ?s) \<noteq> {}"
      by simp
    have "Max (set (mSockets ?s)) \<in> set (mSockets ?s)"
      using ne by (intro Max_in) simp_all
    then have "0 \<le> Max (set (mSockets ?s))"
      using nonneg by blast
    then have "Max (insert 0 (set (mSockets ?s))) = Max (set (mSockets ?s))"
      using ne by (simp add: max_def)
    then show ?thesis
      using False mx by simp
  qed
qed

theorem Selector_cached_maximum_witness:
  "mSocketsMax (run_calls [Add 3, Add 7, Remove 7, Add 5] (Selector_ctor (Some []) None None)) = 5
   \<and> mSockets (run_calls [Add 3, Add 7, Remove 7, Add 5] (Selector_ctor (Some []) None None)) = [3, 5]"
proof -
  have a: "\<forall>c \<in> set [Add 3, Add 7, Remove 7, Add 5]. 0 \<le> descriptor c"
    by simp
  have b: "mSockets (run_calls [Add 3, Add 7, Remove 7, Add 5] (Selector_ctor (Some []) None None)) = [3, 5]"
    by (simp add: Selector_ctor_def setFaulty_def setReadable_def setWritable_def add_def remove_def)
  show ?thesis
    using Selector_cached_maximum [OF a, of "Some []" None None] b by simp
qed

section \<open>Selector::update without targets, and without result\<close>

text \<open>
  \<open>update\<close> on a selector constructed with no result vector at all: no \<open>select\<close> call
  is made and the status is -2, but no error callback is called either; the status is
  the only sign of the misconfiguration.
\<close>

theorem update_no_target_counterexample:
  "update \<lparr>returned = 1, readable_fds = {}, writable_fds = {}, faulty_fds = {},
            timeout_left = (0, 0)\<rparr>
     (Selector_ctor None None None) =
   Inr (- 2, Selector_ctor None None None, [], [])"
  by (simp add: update_def Selector_ctor_def setFaulty_def setReadable_def setWritable_def)

text \<open>
  C8, as the code has it.  When all three result vectors are absent (all three set
  pointers null), \<open>update\<close> makes no \<open>select\<close> call, calls no error callback, leaves the
  selector as it is and returns the status -2, which no other path returns for a
  misconfiguration.  When at least one is present and \<open>select\<close> answers 0 (timeout) or
  a negative value (error), \<open>update\<close> has made exactly that one \<open>select\<close> call, returns
  its answer, reports nothing, and every result vector that is present is empty
  afterwards, whatever it held before.
\<close>

theorem update_no_target_and_no_result:
  "(\<not> mFdReadablePointer s \<and> \<not> mFdWritablePointer s \<and> \<not> mFdFaultyPointer s \<longrightarrow>
      update os s = Inr (- 2, s, [], []))
   \<and> ((mFdReadablePointer s \<or> mFdWritablePointer s \<or> mFdFaultyPointer s) \<and> returned os \<le> 0 \<longrightarrow>
      (\<exists>s' call. update os s = Inr (returned os, s', [call], [])
         \<and> nfds call = mSocketsMax s + 1
         \<and> mReadable s' = map_option (\<lambda>v. []) (mReadable s)
         \<and> mWritable s' = map_option (\<lambda>v. []) (mWritable s)
         \<and> mFaulty s' = map_option (\<lambda>v. []) (mFaulty s)))"
  by (auto simp add: update_def clearTemp_def Let_def split: option.splits)

theorem update_no_target_and_no_result_witness:
  "update \<lparr>returned = 0, readable_fds = {}, writable_fds = {}, faulty_fds = {},
            timeout_left = (0, 0)\<rparr>
     (Selector_ctor None None None) = Inr (- 2, Selector_ctor None None None, [], [])
   \<and> (\<exists>s' call.
         update \<lparr>returned = 0, readable_fds = {}, writable_fds = {}, faulty_fds = {},
            timeout_left = (0, 0)\<rparr>
           (add 4 (Selector_ctor (Some [4, 9]) None (Some [9]))) = Inr (0, s', [call], [])
       \<and> nfds call = 5
       \<and> mReadable s' = Some [] \<and> mWritable s' = None \<and> mFaulty s' = Some [])"
proof -
  let ?os = "\<lparr>returned = 0, readable_fds = {}, writable_fds = {}, faulty_fds = {},
            timeout_left = (0, 0)\<rparr>"
  let ?none = "Selector_ctor None None None"
  let ?some = "add 4 (Selector_ctor (Some [4, 9]) None (Some [9]))"
  have a: "\<not> mFdReadablePointer ?none \<and> \<not> mFdWritablePointer ?none \<and> \<not> mFdFaultyPointer ?none"
    by (simp add: Selector_ctor_def setFaulty_def setReadable_def setWritable_def)
  have b: "(mFdReadablePointer ?some \<or> mFdWritablePointer ?some \<or> mFdFaultyPointer ?some)
      \<and> returned ?os \<le> 0"
    by (simp add: Selector_ctor_def setFaulty_def setReadable_def setWritable_def add_def)
  have c: "mSocketsMax ?some + 1 = 5" "map_option (\<lambda>v. []) (mReadable ?some) = Some []"
    "map_option (\<lambda>v. []) (mWritable ?some) = None" "map_option (\<lambda>v. []) (mFaulty ?some) = Some []"
    "returned ?os = 0"
    by (simp_all add: Selector_ctor_def setFaulty_def setReadable_def setWritable_def add_def)
  show ?thesis
    using update_no_target_and_no_result [of ?none ?os, THEN conjunct1, rule_format, OF a]
      update_no_target_and_no_result [of ?some ?os, THEN conjunct2, rule_format, OF b]
    unfolding c by blast
qed

end
